theory Spec2Isabelle
  imports Complex_Main "HOL-Library.Log_Nat"
begin

text \<open>
  A shallow embedding of the quantum classifiers: the QCNN circuit topology (constructor
  parameter count, convolution, pooling, circuit generation) and the train/test drivers of
  the QCNN and kernel classifiers. Python integers are \<open>int\<close>, a float is the real
  number it holds and a float operation rounds its exact result to a double, arrays are lists, exceptions are values of \<open>py_error\<close> on the left of a sum, and
  the operations queued on the quantum tape are a list. The quantum simulator, the
  embedding, the optimizer, the error function and the support vector machine are
  parameters.
\<close>

section \<open>Python primitives used by the classifiers\<close>

datatype py_error = IndexError | ZeroDivisionError | ValueError | OverflowError

text \<open>Python indexing \<open>xs[i]\<close>: negative indices count from the end, anything else out of
  range raises IndexError.\<close>

definition py_index :: "'a list \<Rightarrow> int \<Rightarrow> py_error + 'a" where
  "py_index xs i =
     (if 0 \<le> i \<and> i < int (length xs) then Inr (xs ! nat i)
      else if i < 0 \<and> - int (length xs) \<le> i then Inr (xs ! nat (int (length xs) + i))
      else Inl IndexError)"

text \<open>Python slicing \<open>xs[lo:hi]\<close> with step 1: a missing bound is \<open>None\<close>, a negative bound
  counts from the end, and every bound is clipped to the length; slicing never raises.\<close>

definition slice_bound :: "nat \<Rightarrow> int \<Rightarrow> nat" where
  "slice_bound n i = (if i < 0 then nat (max (i + int n) 0) else min (nat i) n)"

definition py_slice :: "'a list \<Rightarrow> int option \<Rightarrow> int option \<Rightarrow> 'a list" where
  "py_slice xs lo hi =
     (let n = length xs;
          start = (case lo of None \<Rightarrow> 0 | Some i \<Rightarrow> slice_bound n i);
          stop = (case hi of None \<Rightarrow> n | Some j \<Rightarrow> slice_bound n j)
      in take (stop - start) (drop start xs))"

text \<open>\<open>int(x)\<close> on a float truncates toward zero.\<close>

definition py_int :: "real \<Rightarrow> int" where
  "py_int x = (if 0 \<le> x then \<lfloor>x\<rfloor> else \<lceil>x\<rceil>)"

text \<open>Doubles. An operation on floats returns the exact result rounded to the nearest double,
  ties to the even significand: \<open>round53\<close> rounds to 53 significant bits, and a rounded
  result of magnitude \<open>2^1024\<close> or more is outside the doubles. Integer true division and the
  conversion of an integer to a float raise OverflowError there; a float product becomes
  infinite, on which \<open>int\<close> raises OverflowError. (Below \<open>2^-1022\<close> doubles are spaced
  evenly; no quotient or product formed here lies there unless it is a double already.)\<close>

definition round_half_even :: "real \<Rightarrow> int" where
  "round_half_even x =
     (let f = \<lfloor>x\<rfloor>
      in if x - of_int f < 1 / 2 then f
         else if 1 / 2 < x - of_int f then f + 1
         else if even f then f else f + 1)"

definition round53 :: "real \<Rightarrow> real" where
  "round53 x =
     (if x = 0 then 0
      else (let u = 2 powr of_int (\<lfloor>log 2 \<bar>x\<bar>\<rfloor> - 52)
            in u * of_int (round_half_even (x / u))))"

definition float_result :: "real \<Rightarrow> py_error + real" where
  "float_result x = (let y = round53 x in if 2 ^ 1024 \<le> \<bar>y\<bar> then Inl OverflowError else Inr y)"

text \<open>True division \<open>a / b\<close> of two Python integers of any size.\<close>

definition int_truediv :: "int \<Rightarrow> int \<Rightarrow> py_error + real" where
  "int_truediv a b =
     (if b = 0 then Inl ZeroDivisionError else float_result (of_int a / of_int b))"

text \<open>True division of an array length by a batch count. An array length is below \<open>2^53\<close>,
  where rounding the quotient to a double does not change its integer part, so the quotient
  is taken exactly.\<close>

definition py_truediv :: "int \<Rightarrow> int \<Rightarrow> py_error + real" where
  "py_truediv a b = (if b = 0 then Inl ZeroDivisionError else Inr (real_of_int a / real_of_int b))"

section \<open>QCNN topology (qcnn\_method.py)\<close>

text \<open>The operations queued on the circuit tape by the QCNN: a rotation \<open>qml.RY(p, wire)\<close>, an
  entangling gate \<open>qml.CNOT((control, target))\<close>, and whatever the caller's embedding queues.\<close>

datatype ('p, 'x) op = RY 'p int | CNOT int int | Ext 'x

text \<open>\<open>int(np.ceil(size / 2))\<close>: the quotient is a double.\<close>

definition ceil_half :: "int \<Rightarrow> py_error + int" where
  "ceil_half n = (case int_truediv n 2 of Inl e \<Rightarrow> Inl e | Inr q \<Rightarrow> Inr \<lceil>q\<rceil>)"

text \<open>The constructor's loop
  \<^verbatim>\<open>while test_qubits > 1: num_params += 2 * test_qubits; test_qubits = int(np.ceil(test_qubits / 2))\<close>
  as a function of the two variables it updates, returning their final values. (Its
  termination is proved below, once the rounding is known to shrink the size.)\<close>

function num_params_loop :: "int \<Rightarrow> int \<Rightarrow> py_error + (int \<times> int)" where
  "num_params_loop num_params test_qubits =
     (if test_qubits > 1
      then (case ceil_half test_qubits of
              Inl e \<Rightarrow> Inl e
            | Inr half \<Rightarrow> num_params_loop (num_params + 2 * test_qubits) half)
      else Inr (num_params, test_qubits))"
  by pat_completeness auto

definition init_num_params :: "int \<Rightarrow> py_error + int" where
  "init_num_params num_qubits =
     (case num_params_loop 0 num_qubits of
        Inl e \<Rightarrow> Inl e
      | Inr (num_params, test_qubits) \<Rightarrow> Inr (num_params - 2))"

text \<open>\<open>np.random.randn(d)\<close>: \<open>d\<close> independent draws, here read off a given stream of draws;
  numpy rejects a negative dimension with ValueError.\<close>

definition randn :: "(nat \<Rightarrow> real) \<Rightarrow> int \<Rightarrow> py_error + real list" where
  "randn draws d = (if d < 0 then Inl ValueError else Inr (map draws [0..<nat d]))"

record qcnn_solver =
  self_num_qubits :: int
  self_num_params :: int
  self_params :: "real list"

definition init :: "(nat \<Rightarrow> real) \<Rightarrow> int \<Rightarrow> py_error + qcnn_solver" where
  "init draws n =
     (case init_num_params n of
        Inl e \<Rightarrow> Inl e
      | Inr np \<Rightarrow>
         (case randn draws np of
            Inl e \<Rightarrow> Inl e
          | Inr xs \<Rightarrow> Inr \<lparr>self_num_qubits = n, self_num_params = np,
                        self_params = map (\<lambda>x. 0.5 * x) xs\<rparr>))"

text \<open>\<open>pool\<close>: the loop \<^verbatim>\<open>for i in range(new_size, old_size): qml.CNOT(wires=(i, old_size - i - 1))\<close>
  from the value \<open>i\<close> onwards, then the method itself, returning the queued gates and the
  new size.\<close>

function pool_loop :: "int \<Rightarrow> int \<Rightarrow> ('p, 'x) op list" where
  "pool_loop i old_size =
     (if i < old_size then CNOT i (old_size - i - 1) # pool_loop (i + 1) old_size else [])"
  by pat_completeness auto
termination
  by (relation "measure (\<lambda>(i, old_size). nat (old_size - i))") auto

declare pool_loop.simps [simp del]

definition pool :: "int \<Rightarrow> py_error + (('p, 'x) op list \<times> int)" where
  "pool old_size =
     (case ceil_half old_size of
        Inl e \<Rightarrow> Inl e
      | Inr new_size \<Rightarrow> Inr (pool_loop new_size old_size, new_size))"

text \<open>\<open>convolution\<close>, general case: the loop over \<open>i in range(num_qubits)\<close> from the value
  \<open>i\<close> onwards, with the running \<open>i_param\<close>. A parameter read out of range raises.\<close>

function convolution_loop ::
  "int \<Rightarrow> int \<Rightarrow> 'p list \<Rightarrow> int \<Rightarrow> int \<Rightarrow> py_error + (('p, 'x) op list \<times> int)" where
  "convolution_loop num_qubits qubit_to_target ps i i_param =
     (if i < num_qubits then
        (let target_qubit = (i + qubit_to_target) mod num_qubits in
         case py_index ps i_param of
           Inl e \<Rightarrow> Inl e
         | Inr p0 \<Rightarrow>
            (case py_index ps (i_param + 1) of
               Inl e \<Rightarrow> Inl e
             | Inr p1 \<Rightarrow>
                (case convolution_loop num_qubits qubit_to_target ps (i + 1) (i_param + 2) of
                   Inl e \<Rightarrow> Inl e
                 | Inr (gs, used) \<Rightarrow>
                     Inr (RY p0 i # RY p1 target_qubit # CNOT i target_qubit # gs, used))))
      else Inr ([], i_param))"
  by pat_completeness auto
termination
  by (relation "measure (\<lambda>(num_qubits, qubit_to_target, ps, i, i_param). nat (num_qubits - i))")
     auto

declare convolution_loop.simps [simp del]

text \<open>The \<open>else\<close> branch of \<open>convolution\<close> on its own.\<close>

definition convolution_general :: "int \<Rightarrow> 'p list \<Rightarrow> py_error + (('p, 'x) op list \<times> int)" where
  "convolution_general num_qubits ps =
     (let qubit_to_target = max (num_qubits - 3) 1
      in convolution_loop num_qubits qubit_to_target ps 0 0)"

definition convolution :: "int \<Rightarrow> 'p list \<Rightarrow> py_error + (('p, 'x) op list \<times> int)" where
  "convolution num_qubits ps =
     (if num_qubits = 2 then
        (case py_index ps 0 of
           Inl e \<Rightarrow> Inl e
         | Inr p0 \<Rightarrow>
            (case py_index ps 1 of
               Inl e \<Rightarrow> Inl e
             | Inr p1 \<Rightarrow> Inr ([RY p0 0, RY p1 1, CNOT 0 1], 2)))
      else convolution_general num_qubits ps)"

text \<open>The body of \<open>generate_qcnn_circuit\<close> after the embedding: \<^verbatim>\<open>while True\<close> with a
  \<open>break\<close> once pooling leaves one position. The loop need not end (it spins at size 0), so
  not returning is the value \<open>None\<close>.\<close>

partial_function (option) generate_loop ::
  "'p list \<Rightarrow> ('p, 'x) op list \<Rightarrow> int \<Rightarrow> int \<Rightarrow> (py_error + (('p, 'x) op list \<times> int \<times> int)) option"
  where
  "generate_loop ps tape num_params_utilized num_qubits_utilized =
     (case convolution num_qubits_utilized (py_slice ps (Some num_params_utilized) None) of
        Inl e \<Rightarrow> Some (Inl e)
      | Inr (cg, used) \<Rightarrow>
         (case pool num_qubits_utilized of
            Inl e \<Rightarrow> Some (Inl e)
          | Inr (pg, new_size) \<Rightarrow>
              if new_size = 1
              then Some (Inr (tape @ cg @ pg, num_params_utilized + used, new_size))
              else generate_loop ps (tape @ cg @ pg) (num_params_utilized + used) new_size))"

declare generate_loop.simps [code]

datatype measurement = Expval_PauliZ int | Probs "int list"

definition generate_qcnn_circuit ::
  "('v \<Rightarrow> 'x list) \<Rightarrow> int \<Rightarrow> 'v \<Rightarrow> 'p list
     \<Rightarrow> (py_error + (('p, 'x) op list \<times> measurement)) option" where
  "generate_qcnn_circuit embedding n feature_vector ps =
     (case generate_loop ps (map Ext (embedding feature_vector)) 0 n of
        None \<Rightarrow> None
      | Some (Inl e) \<Rightarrow> Some (Inl e)
      | Some (Inr (tape, used, left)) \<Rightarrow> Some (Inr (tape, Expval_PauliZ 0)))"

text \<open>The parameters read by the rotations on a tape, in tape order (an observer of the
  tape, not part of the program).\<close>

fun ry_params :: "('p, 'x) op list \<Rightarrow> 'p list" where
  "ry_params [] = []"
| "ry_params (RY p w # gs) = p # ry_params gs"
| "ry_params (CNOT c t # gs) = ry_params gs"
| "ry_params (Ext x # gs) = ry_params gs"

text \<open>The spec's trajectory step, \<open>ceil(size / 2)\<close> as a number, to compare with the code's
  \<open>ceil_half\<close>; and the size the code has after \<open>k\<close> rounds of \<open>ceil_half\<close> (an observer of the
  loops, not part of the program).\<close>

definition spec_half :: "int \<Rightarrow> int" where
  "spec_half n = \<lceil>real_of_int n / 2\<rceil>"


section \<open>Collaborators outside the sources\<close>

text \<open>Modelled from the spec: the execution-node factory \<open>get_qnode_instance\<close> (utils/utils.py)
  is not among the sources. By the spec it turns a circuit-construction function and a qubit
  count into a callable that takes the same positional arguments and returns the measurement
  result the function declares. The simulator that evaluates a recorded circuit is the
  parameter \<open>device\<close>.\<close>

definition get_qnode_instance :: "('c \<Rightarrow> 'r) \<Rightarrow> ('a \<Rightarrow> 'b \<Rightarrow> 'c) \<Rightarrow> int \<Rightarrow> 'a \<Rightarrow> 'b \<Rightarrow> 'r" where
  "get_qnode_instance device circuit_function num_qubits a b = device (circuit_function a b)"

text \<open>A list comprehension whose element expression may raise: the first exception ends it.\<close>

fun list_comprehension :: "('a \<Rightarrow> py_error + 'b) \<Rightarrow> 'a list \<Rightarrow> py_error + 'b list" where
  "list_comprehension f [] = Inr []"
| "list_comprehension f (x # xs) =
     (case f x of
        Inl e \<Rightarrow> Inl e
      | Inr y \<Rightarrow> (case list_comprehension f xs of Inl e \<Rightarrow> Inl e | Inr ys \<Rightarrow> Inr (y # ys)))"

text \<open>An optimizer is a caller-supplied function that invokes the cost function as often as
  it likes, at parameters of its choice, and returns the optimized parameters. It is modelled
  by its strategy: either it returns, or it calls the cost function at some parameters and
  continues from the cost it gets back. The cost function may carry state from one call to
  the next; an exception raised by the cost function ends the optimizer.\<close>

datatype optimizer = Return "real list" | Call "real list" "real \<Rightarrow> optimizer"

primrec call_optimizer ::
  "optimizer \<Rightarrow> (real list \<Rightarrow> 'st \<Rightarrow> (py_error + real) \<times> 'st) \<Rightarrow> 'st
     \<Rightarrow> (py_error + real list) \<times> 'st" where
  "call_optimizer (Return ps) cost st = (Inr ps, st)"
| "call_optimizer (Call ps k) cost st =
     (case cost ps st of
        (Inl e, st') \<Rightarrow> (Inl e, st')
      | (Inr c, st') \<Rightarrow> call_optimizer (k c) cost st')"

text \<open>The states in which the cost function is invoked during \<open>call_optimizer\<close>, in order of
  invocation (an observer of the run, not part of the program).\<close>

primrec cost_call_states ::
  "optimizer \<Rightarrow> (real list \<Rightarrow> 'st \<Rightarrow> (py_error + real) \<times> 'st) \<Rightarrow> 'st \<Rightarrow> 'st list" where
  "cost_call_states (Return ps) cost st = []"
| "cost_call_states (Call ps k) cost st =
     st # (case cost ps st of
             (Inl e, st') \<Rightarrow> []
           | (Inr c, st') \<Rightarrow> cost_call_states (k c) cost st')"

section \<open>The positional train/test split (all run methods)\<close>

text \<open>\<open>training_period = int(training_ratio * len(labels))\<close>: the length is converted to a
  float, the product is a double, and \<open>int\<close> truncates it. Then \<open>xs[:training_period]\<close> and
  \<open>xs[training_period:]\<close> for the feature vectors (along the first axis) and the labels.\<close>

definition training_period :: "real \<Rightarrow> 'l list \<Rightarrow> py_error + int" where
  "training_period training_ratio labels =
     (case float_result (real (length labels)) of
        Inl e \<Rightarrow> Inl e
      | Inr n \<Rightarrow>
         (case float_result (training_ratio * n) of
            Inl e \<Rightarrow> Inl e
          | Inr product \<Rightarrow> Inr (py_int product)))"

definition training_part :: "'a list \<Rightarrow> int \<Rightarrow> 'a list" where
  "training_part xs period = py_slice xs None (Some period)"

definition testing_part :: "'a list \<Rightarrow> int \<Rightarrow> 'a list" where
  "testing_part xs period = py_slice xs (Some period) None"

section \<open>Kernel classifier (kernel\_method.py)\<close>

definition py_range :: "int \<Rightarrow> int list" where
  "py_range n = [0..n - 1]"

text \<open>\<open>get_kernel_embedding\<close>: the embedding of \<open>a\<close>, then \<open>qml.adjoint(self.embedding)(b)\<close>,
  measured by \<open>qml.probs(wires=range(self.num_qubits))\<close>. The embedding and the library's
  adjoint transform are parameters.\<close>

definition get_kernel_embedding ::
  "('v \<Rightarrow> 'x list) \<Rightarrow> (('v \<Rightarrow> 'x list) \<Rightarrow> 'v \<Rightarrow> 'x list) \<Rightarrow> int \<Rightarrow> 'v \<Rightarrow> 'v
     \<Rightarrow> 'x list \<times> measurement" where
  "get_kernel_embedding embedding qml_adjoint num_qubits a b =
     (embedding a @ qml_adjoint embedding b, Probs (py_range num_qubits))"

definition kernel_circuit ::
  "('x list \<times> measurement \<Rightarrow> real list) \<Rightarrow> ('v \<Rightarrow> 'x list)
     \<Rightarrow> (('v \<Rightarrow> 'x list) \<Rightarrow> 'v \<Rightarrow> 'x list) \<Rightarrow> int \<Rightarrow> 'v \<Rightarrow> 'v \<Rightarrow> real list" where
  "kernel_circuit device embedding qml_adjoint num_qubits =
     get_qnode_instance device (get_kernel_embedding embedding qml_adjoint num_qubits) num_qubits"

text \<open>\<^verbatim>\<open>np.array([[self.kernel_circuit(a, b)[0] for b in B] for a in A])\<close>\<close>

definition qkernel ::
  "('x list \<times> measurement \<Rightarrow> real list) \<Rightarrow> ('v \<Rightarrow> 'x list)
     \<Rightarrow> (('v \<Rightarrow> 'x list) \<Rightarrow> 'v \<Rightarrow> 'x list) \<Rightarrow> int \<Rightarrow> 'v list \<Rightarrow> 'v list
     \<Rightarrow> py_error + real list list" where
  "qkernel device embedding qml_adjoint num_qubits A B =
     list_comprehension
       (\<lambda>a. list_comprehension
              (\<lambda>b. py_index (kernel_circuit device embedding qml_adjoint num_qubits a b) 0) B) A"

text \<open>The support vector machine handed to \<open>run\<close>: construction with the kernel and fitting,
  scoring, and predicting are the caller's.\<close>

record ('v, 'l, 'm) svm_class =
  svm_fit :: "('v list \<Rightarrow> 'v list \<Rightarrow> py_error + real list list) \<Rightarrow> 'v list \<Rightarrow> 'l list
                \<Rightarrow> py_error + 'm"
  svm_score :: "'m \<Rightarrow> 'v list \<Rightarrow> 'l list \<Rightarrow> py_error + real"
  svm_predict :: "'m \<Rightarrow> 'v list \<Rightarrow> py_error + 'l list"

text \<open>\<open>run\<close> of the kernel classifier after the split, as a function of the four parts.\<close>

definition kernel_run_on_split ::
  "('v, 'l, 'm) svm_class \<Rightarrow> ('v list \<Rightarrow> 'v list \<Rightarrow> py_error + real list list)
     \<Rightarrow> 'v list \<Rightarrow> 'l list \<Rightarrow> 'v list \<Rightarrow> 'l list \<Rightarrow> py_error + (real \<times> 'l list)" where
  "kernel_run_on_split svm qk training_vectors training_labels testing_vecors testing_labels =
     (case svm_fit svm qk training_vectors training_labels of
        Inl e \<Rightarrow> Inl e
      | Inr model \<Rightarrow>
         (case svm_score svm model testing_vecors testing_labels of
            Inl e \<Rightarrow> Inl e
          | Inr score \<Rightarrow>
             (case svm_predict svm model testing_vecors of
                Inl e \<Rightarrow> Inl e
              | Inr predictions \<Rightarrow> Inr (score, predictions))))"

definition kernel_run ::
  "('x list \<times> measurement \<Rightarrow> real list) \<Rightarrow> ('v \<Rightarrow> 'x list)
     \<Rightarrow> (('v \<Rightarrow> 'x list) \<Rightarrow> 'v \<Rightarrow> 'x list) \<Rightarrow> int \<Rightarrow> ('v, 'l, 'm) svm_class
     \<Rightarrow> 'v list \<Rightarrow> 'l list \<Rightarrow> real \<Rightarrow> py_error + (real \<times> 'l list)" where
  "kernel_run device embedding qml_adjoint num_qubits svm feature_vectors labels training_ratio =
     (case training_period training_ratio labels of
        Inl e \<Rightarrow> Inl e
      | Inr period \<Rightarrow>
          kernel_run_on_split svm (qkernel device embedding qml_adjoint num_qubits)
            (training_part feature_vectors period) (training_part labels period)
            (testing_part feature_vectors period) (testing_part labels period))"

section \<open>QCNN classifier driver (qcnn\_method.py)\<close>

text \<open>\<open>np.empty_like(testing_labels)\<close>: an array of the same length whose entries are whatever
  the memory holds (the parameter \<open>uninit\<close>).\<close>

definition empty_like :: "(nat \<Rightarrow> real) \<Rightarrow> 'a list \<Rightarrow> real list" where
  "empty_like uninit xs = map uninit [0..<length xs]"

text \<open>Item assignment \<open>xs[i] = v\<close>.\<close>

definition py_setitem :: "'a list \<Rightarrow> int \<Rightarrow> 'a \<Rightarrow> py_error + 'a list" where
  "py_setitem xs i v =
     (if 0 \<le> i \<and> i < int (length xs) then Inr (xs[nat i := v])
      else if i < 0 \<and> - int (length xs) \<le> i then Inr (xs[nat (int (length xs) + i) := v])
      else Inl IndexError)"

text \<open>\<^verbatim>\<open>for i, testing_vector in enumerate(testing_vectors):
      predictions[i] = np.sign(self.circuit_to_optimize(testing_vector, self.params))\<close>
  from index \<open>i\<close> onwards. \<open>self.circuit_to_optimize\<close> is the execution node held by the
  instance, here the parameter \<open>node\<close>.\<close>

fun predict_loop ::
  "('v \<Rightarrow> real list \<Rightarrow> py_error + real) \<Rightarrow> real list \<Rightarrow> real list \<Rightarrow> int \<Rightarrow> 'v list
     \<Rightarrow> py_error + real list" where
  "predict_loop node ps predictions i [] = Inr predictions"
| "predict_loop node ps predictions i (testing_vector # rest) =
     (case node testing_vector ps of
        Inl e \<Rightarrow> Inl e
      | Inr y \<Rightarrow>
         (case py_setitem predictions i (sgn y) of
            Inl e \<Rightarrow> Inl e
          | Inr predictions' \<Rightarrow> predict_loop node ps predictions' (i + 1) rest))"

text \<open>The cost function of \<open>run\<close>.\<close>

definition cost_function ::
  "('v \<Rightarrow> real list \<Rightarrow> py_error + real) \<Rightarrow> (real list \<Rightarrow> real list \<Rightarrow> py_error + real)
     \<Rightarrow> 'v list \<Rightarrow> real list \<Rightarrow> real list \<Rightarrow> py_error + real" where
  "cost_function node error_function training_vectors training_labels ps =
     (case list_comprehension (\<lambda>training_vector. node training_vector ps) training_vectors of
        Inl e \<Rightarrow> Inl e
      | Inr resulting_labels \<Rightarrow> error_function resulting_labels training_labels)"

text \<open>What \<open>run\<close> and \<open>run_batched\<close> do once the optimizer has returned: the predictions, the
  score, and the new \<open>self.params\<close>.\<close>

definition predict_and_score ::
  "('v \<Rightarrow> real list \<Rightarrow> py_error + real) \<Rightarrow> (real list \<Rightarrow> real list \<Rightarrow> 's) \<Rightarrow> real list
     \<Rightarrow> py_error + real list \<Rightarrow> 'v list \<Rightarrow> real list
     \<Rightarrow> py_error + ('s \<times> real list \<times> real list)" where
  "predict_and_score node get_score predictions optimized testing_vectors testing_labels =
     (case optimized of
        Inl e \<Rightarrow> Inl e
      | Inr ps \<Rightarrow>
         (case predict_loop node ps predictions 0 testing_vectors of
            Inl e \<Rightarrow> Inl e
          | Inr predictions' \<Rightarrow> Inr (get_score predictions' testing_labels, predictions', ps)))"

definition run ::
  "('v \<Rightarrow> real list \<Rightarrow> py_error + real) \<Rightarrow> (real list \<Rightarrow> real list \<Rightarrow> 's) \<Rightarrow> (nat \<Rightarrow> real)
     \<Rightarrow> real list \<Rightarrow> 'v list \<Rightarrow> real list \<Rightarrow> (real list \<Rightarrow> optimizer)
     \<Rightarrow> (real list \<Rightarrow> real list \<Rightarrow> py_error + real) \<Rightarrow> real
     \<Rightarrow> py_error + ('s \<times> real list \<times> real list)" where
  "run node get_score uninit self_ps feature_vectors labels optimizer_function error_function
       training_ratio =
     (case training_period training_ratio labels of
        Inl e \<Rightarrow> Inl e
      | Inr period \<Rightarrow>
         (let training_vectors = training_part feature_vectors period;
              testing_vectors = testing_part feature_vectors period;
              training_labels = training_part labels period;
              testing_labels = testing_part labels period;
              predictions = empty_like uninit testing_labels;
              optimized = fst (call_optimizer (optimizer_function self_ps)
                            (\<lambda>ps u. (cost_function node error_function training_vectors
                                         training_labels ps, u)) ())
          in predict_and_score node get_score predictions optimized testing_vectors
               testing_labels))"

text \<open>\<open>run_batched\<close>: the slice \<^verbatim>\<open>xs[batch_number * batch_lenght : (batch_number + 1) * batch_lenght]\<close>,
  the cost function with the batch number it reads and the one it leaves behind, and the
  method.\<close>

definition batched :: "'a list \<Rightarrow> int \<Rightarrow> int \<Rightarrow> 'a list" where
  "batched xs batch_lenght batch_number =
     py_slice xs (Some (batch_number * batch_lenght)) (Some ((batch_number + 1) * batch_lenght))"

definition batched_cost_function ::
  "('v \<Rightarrow> real list \<Rightarrow> py_error + real) \<Rightarrow> (real list \<Rightarrow> real list \<Rightarrow> py_error + real)
     \<Rightarrow> 'v list \<Rightarrow> real list \<Rightarrow> int \<Rightarrow> real list \<Rightarrow> int \<Rightarrow> (py_error + real) \<times> int" where
  "batched_cost_function node error_function training_vectors training_labels batch_lenght ps
       batch_number =
     (let batched_training_vectors = batched training_vectors batch_lenght batch_number;
          batched_training_labels = batched training_labels batch_lenght batch_number
      in case list_comprehension (\<lambda>training_vector. node training_vector ps)
                batched_training_vectors of
           Inl e \<Rightarrow> (Inl e, batch_number)
         | Inr resulting_labels \<Rightarrow>
             (error_function resulting_labels batched_training_labels, batch_number + 1))"

definition get_batch_lenght :: "'a list \<Rightarrow> int \<Rightarrow> py_error + int" where
  "get_batch_lenght training_labels num_batches =
     (case py_truediv (int (length training_labels)) num_batches of
        Inl e \<Rightarrow> Inl e
      | Inr q \<Rightarrow> Inr (py_int q))"

definition run_batched ::
  "('v \<Rightarrow> real list \<Rightarrow> py_error + real) \<Rightarrow> (real list \<Rightarrow> real list \<Rightarrow> 's) \<Rightarrow> (nat \<Rightarrow> real)
     \<Rightarrow> real list \<Rightarrow> 'v list \<Rightarrow> real list \<Rightarrow> (real list \<Rightarrow> optimizer)
     \<Rightarrow> (real list \<Rightarrow> real list \<Rightarrow> py_error + real) \<Rightarrow> int \<Rightarrow> real
     \<Rightarrow> py_error + ('s \<times> real list \<times> real list)" where
  "run_batched node get_score uninit self_ps feature_vectors labels optimizer_function
       error_function num_batches training_ratio =
     (case training_period training_ratio labels of
        Inl e \<Rightarrow> Inl e
      | Inr period \<Rightarrow>
         (let training_vectors = training_part feature_vectors period;
              testing_vectors = testing_part feature_vectors period;
              training_labels = training_part labels period;
              testing_labels = testing_part labels period;
              predictions = empty_like uninit testing_labels
          in case get_batch_lenght training_labels num_batches of
               Inl e \<Rightarrow> Inl e
             | Inr batch_lenght \<Rightarrow>
                 (let optimized = fst (call_optimizer (optimizer_function self_ps)
                                    (batched_cost_function node error_function
                                       training_vectors training_labels batch_lenght) 0)
                  in predict_and_score node get_score predictions optimized testing_vectors
                       testing_labels)))"

section \<open>Facts about rounding to a double\<close>

lemma round_half_even_close: "\<bar>of_int (round_half_even y) - y\<bar> \<le> 1 / 2"
proof -
  have "of_int \<lfloor>y\<rfloor> \<le> y" "y < of_int \<lfloor>y\<rfloor> + 1" by linarith+
  then show ?thesis by (auto simp: round_half_even_def Let_def)
qed

lemma round_half_even_of_int: "round_half_even (of_int k) = k"
  by (simp add: round_half_even_def)

lemma round_half_even_le: "y \<le> of_int k \<Longrightarrow> round_half_even y \<le> k"
proof (cases "y = of_int k")
  case True
  then show ?thesis by (simp add: round_half_even_of_int)
next
  case False
  assume "y \<le> of_int k"
  with False have "y < of_int k" by simp
  then have "\<lfloor>y\<rfloor> < k" by (simp add: floor_less_iff)
  then show ?thesis by (auto simp: round_half_even_def Let_def)
qed

lemma round_half_even_ge: "of_int k \<le> y \<Longrightarrow> k \<le> round_half_even y"
proof -
  assume "of_int k \<le> y"
  then have "k \<le> \<lfloor>y\<rfloor>" by (simp add: le_floor_iff)
  then show ?thesis by (auto simp: round_half_even_def Let_def)
qed

lemma exponent_bounds:
  assumes "x \<noteq> 0"
  shows "2 powr of_int \<lfloor>log 2 \<bar>x\<bar>\<rfloor> \<le> \<bar>x\<bar>" and "\<bar>x\<bar> < 2 powr of_int (\<lfloor>log 2 \<bar>x\<bar>\<rfloor> + 1)"
proof -
  have "0 < \<bar>x\<bar>" using assms by simp
  from floor_log_eq_powr_iff [OF this, of 2 "\<lfloor>log 2 \<bar>x\<bar>\<rfloor>"]
  show "2 powr of_int \<lfloor>log 2 \<bar>x\<bar>\<rfloor> \<le> \<bar>x\<bar>" and "\<bar>x\<bar> < 2 powr of_int (\<lfloor>log 2 \<bar>x\<bar>\<rfloor> + 1)"
    by simp_all
qed

lemma round53_at:
  assumes "2 powr of_int e \<le> \<bar>x\<bar>" and "\<bar>x\<bar> < 2 powr of_int (e + 1)"
  shows "round53 x = 2 powr of_int (e - 52) * of_int (round_half_even (x / 2 powr of_int (e - 52)))"
proof -
  have "0 < 2 powr (of_int e :: real)" by simp
  with assms(1) have pos: "0 < \<bar>x\<bar>" by linarith
  then have nz: "x \<noteq> 0" by simp
  from floor_log_eq_powr_iff [OF pos, of 2 e] assms have "\<lfloor>log 2 \<bar>x\<bar>\<rfloor> = e" by simp
  then show ?thesis using nz by (simp add: round53_def Let_def)
qed

lemma round53_error:
  assumes "x \<noteq> 0"
  shows "\<bar>round53 x - x\<bar> \<le> \<bar>x\<bar> / 2 ^ 53"
proof -
  define e where "e = \<lfloor>log 2 \<bar>x\<bar>\<rfloor>"
  define u :: real where "u = 2 powr of_int (e - 52)"
  have u: "0 < u" by (simp add: u_def)
  have r: "round53 x = u * of_int (round_half_even (x / u))"
    using assms by (simp add: round53_def Let_def e_def u_def)
  have "round53 x - x = u * (of_int (round_half_even (x / u)) - x / u)"
    unfolding r using u by (simp add: algebra_simps)
  then have "\<bar>round53 x - x\<bar> = u * \<bar>of_int (round_half_even (x / u)) - x / u\<bar>"
    using u by (simp add: abs_mult)
  also have "\<dots> \<le> u * (1 / 2)"
    using u round_half_even_close [of "x / u"] by (intro mult_left_mono) simp_all
  also have "u * (1 / 2) = 2 powr of_int e / 2 ^ 53"
  proof -
    have "u = 2 powr of_int e / 2 powr 52"
      unfolding u_def by (simp add: powr_diff)
    also have "(2::real) powr 52 = 2 ^ 52" by (simp add: powr_numeral)
    finally show ?thesis by simp
  qed
  also have "\<dots> \<le> \<bar>x\<bar> / 2 ^ 53"
    using exponent_bounds(1) [OF assms] by (simp add: e_def divide_right_mono)
  finally show ?thesis .
qed

lemma round53_nonneg: "0 \<le> x \<Longrightarrow> 0 \<le> round53 x"
proof (cases "x = 0")
  case True
  then show ?thesis by (simp add: round53_def)
next
  case False
  assume "0 \<le> x"
  define u :: real where "u = 2 powr of_int (\<lfloor>log 2 \<bar>x\<bar>\<rfloor> - 52)"
  have u: "0 < u" by (simp add: u_def)
  have "of_int 0 \<le> x / u" using \<open>0 \<le> x\<close> u by simp
  then have "0 \<le> round_half_even (x / u)" by (rule round_half_even_ge)
  then show ?thesis using False u by (simp add: round53_def Let_def u_def)
qed

lemma unit_below_2_53:
  assumes "x \<noteq> 0" and "\<bar>x\<bar> < 2 ^ 53"
  shows "\<exists>d::nat. 2 powr (real_of_int \<lfloor>log 2 \<bar>x\<bar>\<rfloor> - 52) = 1 / 2 ^ d"
proof -
  define e where "e = \<lfloor>log 2 \<bar>x\<bar>\<rfloor>"
  have "2 powr of_int e \<le> \<bar>x\<bar>" using exponent_bounds(1) [OF assms(1)] by (simp add: e_def)
  also have "\<bar>x\<bar> < 2 powr 53" using assms(2) by (simp add: powr_numeral)
  finally have "2 powr of_int e < (2::real) powr 53" .
  then have "of_int e < (53::real)"
    using powr_less_cancel_iff [of 2 "of_int e" 53] by (simp del: powr_numeral)
  then have e: "e \<le> 52" by simp
  define d where "d = nat (52 - e)"
  have "real_of_int e - 52 = - real d" using e by (simp add: d_def)
  then have "2 powr (real_of_int e - 52) = 2 powr (- real d)" by simp
  also have "\<dots> = 1 / 2 ^ d" by (simp add: powr_minus powr_realpow inverse_eq_divide)
  finally show ?thesis unfolding e_def by blast
qed

lemma round53_le_int:
  assumes "\<bar>x\<bar> < 2 ^ 53" and "x \<le> of_int K"
  shows "round53 x \<le> of_int K"
proof (cases "x = 0")
  case True
  with assms(2) show ?thesis by (simp add: round53_def)
next
  case False
  from unit_below_2_53 [OF False assms(1)]
  obtain d :: nat where u: "2 powr (real_of_int \<lfloor>log 2 \<bar>x\<bar>\<rfloor> - 52) = 1 / 2 ^ d" by blast
  have r: "round53 x = of_int (round_half_even (x * 2 ^ d)) / 2 ^ d"
    using False by (simp add: round53_def Let_def u)
  have "x * 2 ^ d \<le> of_int (K * 2 ^ d)" using assms(2) by simp
  then have "round_half_even (x * 2 ^ d) \<le> K * 2 ^ d" by (rule round_half_even_le)
  then have "(of_int (round_half_even (x * 2 ^ d)) :: real) \<le> of_int (K * 2 ^ d)"
    by (simp only: of_int_le_iff)
  then show ?thesis unfolding r by (simp add: divide_le_eq)
qed

lemma round53_ge_int:
  assumes "\<bar>x\<bar> < 2 ^ 53" and "of_int K \<le> x"
  shows "of_int K \<le> round53 x"
proof (cases "x = 0")
  case True
  with assms(2) show ?thesis by (simp add: round53_def)
next
  case False
  from unit_below_2_53 [OF False assms(1)]
  obtain d :: nat where u: "2 powr (real_of_int \<lfloor>log 2 \<bar>x\<bar>\<rfloor> - 52) = 1 / 2 ^ d" by blast
  have r: "round53 x = of_int (round_half_even (x * 2 ^ d)) / 2 ^ d"
    using False by (simp add: round53_def Let_def u)
  have "of_int (K * 2 ^ d) \<le> x * 2 ^ d" using assms(2) by simp
  then have "K * 2 ^ d \<le> round_half_even (x * 2 ^ d)" by (rule round_half_even_ge)
  then have "(of_int (K * 2 ^ d) :: real) \<le> of_int (round_half_even (x * 2 ^ d))"
    by (simp only: of_int_le_iff)
  then show ?thesis unfolding r by (simp add: le_divide_eq)
qed

lemma round53_int_exact:
  assumes "\<bar>K\<bar> < 2 ^ 53"
  shows "round53 (of_int K) = of_int K"
proof -
  have "\<bar>real_of_int K\<bar> < 2 ^ 53" using assms by (metis of_int_abs of_int_less_numeral_power_cancel_iff)
  from round53_le_int [OF this, of K] round53_ge_int [OF this, of K]
  show ?thesis by simp
qed

lemma round53_double: "round53 (2 * x) = 2 * round53 x"
proof (cases "x = 0")
  case True
  then show ?thesis by (simp add: round53_def)
next
  case False
  then have "log 2 \<bar>2 * x\<bar> = 1 + log 2 \<bar>x\<bar>"
    by (simp add: abs_mult log_mult)
  then have e: "\<lfloor>log 2 \<bar>2 * x\<bar>\<rfloor> = \<lfloor>log 2 \<bar>x\<bar>\<rfloor> + 1"
    by simp
  have "2 powr (real_of_int \<lfloor>log 2 \<bar>x\<bar>\<rfloor> - 52 + 1)
          = 2 powr (real_of_int \<lfloor>log 2 \<bar>x\<bar>\<rfloor> - 52) * 2 powr 1"
    by (rule powr_add)
  then have u: "2 powr (real_of_int \<lfloor>log 2 \<bar>x\<bar>\<rfloor> - 51)
          = 2 * 2 powr (real_of_int \<lfloor>log 2 \<bar>x\<bar>\<rfloor> - 52)"
    by simp
  show ?thesis using False by (simp add: round53_def Let_def e u)
qed

lemma round53_half: "round53 (x / 2) = round53 x / 2"
  using round53_double [of "x / 2"] by simp

lemma round53_int_le_2_53:
  assumes "\<bar>K\<bar> \<le> 2 ^ 53"
  shows "round53 (of_int K) = of_int K"
proof (cases "\<bar>K\<bar> < 2 ^ 53")
  case True
  then show ?thesis by (rule round53_int_exact)
next
  case False
  with assms have "\<bar>K\<bar> = 2 ^ 53" by simp
  then have K: "K = 2 * (K div 2)" "\<bar>K div 2\<bar> < 2 ^ 53" by simp_all presburger+
  have "round53 (of_int K) = round53 (2 * of_int (K div 2))"
    using K(1) by (metis of_int_mult of_int_numeral)
  also have "\<dots> = 2 * of_int (K div 2)"
    unfolding round53_double by (simp add: round53_int_exact [OF K(2)])
  also have "\<dots> = of_int K" using K(1) by (metis of_int_mult of_int_numeral)
  finally show ?thesis .
qed

lemma round53_bound:
  "\<bar>round53 x\<bar> \<le> \<bar>x\<bar> + \<bar>x\<bar> / 2 ^ 53"
proof (cases "x = 0")
  case True
  then show ?thesis by (simp add: round53_def)
next
  case False
  from round53_error [OF this] show ?thesis by linarith
qed

section \<open>Facts about the halving and the constructor's loop\<close>

lemma spec_half_div: "spec_half n = (n + 1) div 2"
proof -
  have "\<lceil>real_of_int n / real_of_int 2\<rceil> = - ((- n) div 2)"
    by (rule ceiling_divide_eq_div)
  also have "\<dots> = (n + 1) div 2" by presburger
  finally show ?thesis by (simp add: spec_half_def)
qed



lemma ceil_half_cases:
  "ceil_half n = (if 2 ^ 1024 \<le> \<bar>round53 (of_int n / 2)\<bar> then Inl OverflowError
                  else Inr \<lceil>round53 (of_int n / 2)\<rceil>)"
  by (simp add: ceil_half_def int_truediv_def float_result_def Let_def)

lemma ceil_half_error: "ceil_half n = Inl e \<Longrightarrow> e = OverflowError"
  by (simp add: ceil_half_cases split: if_splits)

lemma ceil_half_exact:
  assumes "\<bar>n\<bar> \<le> 2 ^ 53"
  shows "ceil_half n = Inr (spec_half n)"
proof -
  have r: "round53 (of_int n / 2) = of_int n / 2"
    unfolding round53_half by (simp add: round53_int_le_2_53 [OF assms])
  have "\<bar>real_of_int n\<bar> \<le> 2 ^ 53"
    using assms by (metis of_int_abs of_int_le_numeral_power_cancel_iff)
  then have "\<bar>real_of_int n / 2\<bar> < 2 ^ 1024" by simp
  then show ?thesis by (simp add: ceil_half_cases r spec_half_def)
qed

lemma ceil_half_returns:
  assumes "\<bar>n\<bar> \<le> 2 ^ 1024"
  shows "\<exists>h. ceil_half n = Inr h"
proof -
  define A :: real where "A = 2 ^ 1023"
  have A: "0 < A" "(2::real) ^ 1024 = 2 * A" by (simp_all add: A_def)
  have "\<bar>real_of_int n\<bar> \<le> 2 ^ 1024"
    using assms by (metis of_int_abs of_int_le_numeral_power_cancel_iff)
  then have x: "\<bar>real_of_int n / 2\<bar> \<le> A" unfolding A(2) by simp
  have "\<bar>round53 (of_int n / 2)\<bar> \<le> \<bar>real_of_int n / 2\<bar> + \<bar>real_of_int n / 2\<bar> / 2 ^ 53"
    by (rule round53_bound)
  also have "\<dots> \<le> A + A / 2 ^ 53"
    using x by (intro add_mono divide_right_mono) simp_all
  also have "\<dots> < 2 * A" using A(1) by simp
  finally have "\<not> 2 ^ 1024 \<le> \<bar>round53 (of_int n / 2)\<bar>" unfolding A(2) by simp
  then show ?thesis by (simp add: ceil_half_cases)
qed

lemma ceil_half_shrinks:
  assumes "2 \<le> n" and "ceil_half n = Inr h"
  shows "h < n" and "1 \<le> h" and "2 < n \<Longrightarrow> 2 \<le> h" and "h \<le> 2 ^ 1024"
proof -
  let ?y = "round53 (of_int n / 2)"
  from assms(2) have nov: "\<bar>?y\<bar> < 2 ^ 1024" and h: "h = \<lceil>?y\<rceil>"
    by (simp_all add: ceil_half_cases split: if_splits)
  from nov have "?y \<le> of_int (2 ^ 1024)" by simp
  then show "h \<le> 2 ^ 1024" unfolding h by (simp only: ceiling_le_iff)
  have small: "h = 1" if "n = 2"
    using ceil_half_exact [of 2] assms(2) that by (simp add: spec_half_div)
  have nz: "real_of_int n / 2 \<noteq> 0" using assms(1) by simp
  have err: "\<bar>?y - of_int n / 2\<bar> \<le> (of_int n / 2) / 2 ^ 53"
    using round53_error [OF nz] assms(1) by simp
  have big: "h < n \<and> 2 \<le> h" if "2 < n"
  proof -
    from that have n3: "3 \<le> real_of_int n" by simp
    have up: "?y \<le> of_int n / 2 + (of_int n / 2) / 2 ^ 53" using err by linarith
    have lo: "of_int n / 2 - (of_int n / 2) / 2 ^ 53 \<le> ?y" using err by linarith
    have "of_int h < ?y + 1" unfolding h by linarith
    also have "\<dots> \<le> of_int n" using up n3 by simp
    finally have a: "h < n" by simp
    have "1 < ?y" using lo n3 by simp
    then have "1 < \<lceil>?y\<rceil>" by (simp add: less_ceiling_iff)
    then have b: "2 \<le> h" unfolding h by simp
    from a b show ?thesis ..
  qed
  show "h < n" using small big assms(1) by (cases "n = 2") auto
  show "1 \<le> h" using small big assms(1) by (cases "n = 2") auto
  show "2 \<le> h" if "2 < n" using big that by simp
qed

termination num_params_loop
proof (relation "measure (\<lambda>(num_params, test_qubits). nat test_qubits)")
  show "wf (measure (\<lambda>(num_params, test_qubits). nat test_qubits))" by simp
next
  fix num_params test_qubits half :: int
  assume "1 < test_qubits" and "ceil_half test_qubits = Inr half"
  then have "half < test_qubits" by (intro ceil_half_shrinks(1)) simp_all
  with \<open>1 < test_qubits\<close>
  show "((num_params + 2 * test_qubits, half), (num_params, test_qubits))
          \<in> measure (\<lambda>(num_params, test_qubits). nat test_qubits)"
    by simp
qed

declare num_params_loop.simps [simp del]

lemma num_params_loop_exit:
  "test_qubits \<le> 1 \<Longrightarrow> num_params_loop c test_qubits = Inr (c, test_qubits)"
  by (subst num_params_loop.simps) simp

lemma num_params_loop_step:
  "1 < test_qubits \<Longrightarrow> ceil_half test_qubits = Inr half \<Longrightarrow>
   num_params_loop c test_qubits = num_params_loop (c + 2 * test_qubits) half"
  by (subst num_params_loop.simps) simp

lemma num_params_loop_raise:
  "1 < test_qubits \<Longrightarrow> ceil_half test_qubits = Inl e \<Longrightarrow>
   num_params_loop c test_qubits = Inl e"
  by (subst num_params_loop.simps) simp

lemma num_params_loop_shift:
  "num_params_loop c n
     = (case num_params_loop 0 n of Inl e \<Rightarrow> Inl e | Inr (a, b) \<Rightarrow> Inr (c + a, b))"
proof (induction "nat n" arbitrary: c n rule: less_induct)
  case less
  show ?case
  proof (cases "1 < n")
    case False
    then show ?thesis by (simp add: num_params_loop_exit)
  next
    case True
    show ?thesis
    proof (cases "ceil_half n")
      case (Inl e)
      with True show ?thesis by (simp add: num_params_loop_raise)
    next
      case (Inr h)
      have "h < n" using True Inr by (intro ceil_half_shrinks(1)) simp_all
      with True have lt: "nat h < nat n" by simp
      have a: "num_params_loop c n = num_params_loop (c + 2 * n) h"
        using True Inr by (rule num_params_loop_step)
      have b: "num_params_loop 0 n = num_params_loop (0 + 2 * n) h"
        using True Inr by (rule num_params_loop_step)
      show ?thesis
        unfolding a b
        by (subst less [OF lt, of "c + 2 * n"], subst less [OF lt, of "0 + 2 * n"])
           (simp split: sum.splits)
    qed
  qed
qed

lemma init_num_params_small: "n \<le> 1 \<Longrightarrow> init_num_params n = Inr (- 2)"
  by (simp add: init_num_params_def num_params_loop_exit)

lemma ceil_half_2: "ceil_half 2 = Inr 1"
  using ceil_half_exact [of 2] by (simp add: spec_half_div)

lemma init_num_params_2: "init_num_params 2 = Inr 2"
proof -
  have "num_params_loop 0 2 = num_params_loop (0 + 2 * 2) 1"
    by (rule num_params_loop_step) (simp_all add: ceil_half_2)
  then show ?thesis by (simp add: init_num_params_def num_params_loop_exit)
qed

lemma init_num_params_rec:
  assumes "2 < n" and "ceil_half n = Inr h"
  shows "init_num_params n
           = (case init_num_params h of Inl e \<Rightarrow> Inl e | Inr c \<Rightarrow> Inr (2 * n + c))"
proof -
  have "num_params_loop 0 n = num_params_loop (0 + 2 * n) h"
    using assms by (intro num_params_loop_step) simp_all
  then show ?thesis
    unfolding init_num_params_def
    by (subst (asm) num_params_loop_shift [of "0 + 2 * n"]) (simp split: sum.splits)
qed

lemma init_num_params_raise:
  assumes "2 \<le> n" and "ceil_half n = Inl e"
  shows "init_num_params n = Inl e"
  using assms by (simp add: init_num_params_def num_params_loop_raise)

lemma init_num_params_ge2: "2 \<le> n \<Longrightarrow> init_num_params n = Inr c \<Longrightarrow> 2 \<le> c"
proof (induction "nat n" arbitrary: n c rule: less_induct)
  case less
  show ?case
  proof (cases "n = 2")
    case True
    with less.prems show ?thesis by (simp add: init_num_params_2)
  next
    case False
    with less.prems have n: "2 < n" by simp
    show ?thesis
    proof (cases "ceil_half n")
      case (Inl e)
      with less.prems show ?thesis by (simp add: init_num_params_raise)
    next
      case (Inr h)
      note sh = ceil_half_shrinks [OF less.prems(1) Inr]
      have lt: "nat h < nat n" using sh(1) n by simp
      from less.prems(2) obtain c' where c': "init_num_params h = Inr c'" "c = 2 * n + c'"
        unfolding init_num_params_rec [OF n Inr] by (auto split: sum.splits)
      have "2 \<le> c'" using less.hyps [OF lt sh(3) [OF n] c'(1)] .
      with c'(2) n show ?thesis by simp
    qed
  qed
qed

lemma init_num_params_returns:
  "2 \<le> n \<Longrightarrow> n \<le> 2 ^ 1024 \<Longrightarrow> \<exists>c. init_num_params n = Inr c"
proof (induction "nat n" arbitrary: n rule: less_induct)
  case less
  show ?case
  proof (cases "n = 2")
    case True
    then show ?thesis by (simp add: init_num_params_2)
  next
    case False
    with less.prems have n: "2 < n" by simp
    have "\<bar>n\<bar> \<le> 2 ^ 1024" using less.prems by simp
    from ceil_half_returns [OF this] obtain h where h: "ceil_half n = Inr h" by blast
    note sh = ceil_half_shrinks [OF less.prems(1) h]
    have lt: "nat h < nat n" using sh(1) n by simp
    from less.hyps [OF lt sh(3) [OF n] sh(4)] obtain c' where "init_num_params h = Inr c'"
      by blast
    then show ?thesis by (simp add: init_num_params_rec [OF n h])
  qed
qed

lemma init_num_params_error:
  assumes "init_num_params n = Inl e"
  shows "e = OverflowError" and "2 ^ 1024 < n"
proof -
  have n2: "2 \<le> n"
    using assms init_num_params_small [of n] by (cases "n \<le> 1") simp_all
  show "2 ^ 1024 < n"
    using assms n2 init_num_params_returns [of n] by (cases "n \<le> 2 ^ 1024") auto
  show "e = OverflowError"
    using n2 assms
  proof (induction "nat n" arbitrary: n rule: less_induct)
    case less
    show ?case
    proof (cases "ceil_half n")
      case (Inl e')
      with less.prems have "e' = e" by (simp add: init_num_params_raise)
      with Inl show ?thesis by (auto dest: ceil_half_error)
    next
      case (Inr h)
      have n: "2 < n" using less.prems by (cases "n = 2") (simp_all add: init_num_params_2)
      note sh = ceil_half_shrinks [OF less.prems(1) Inr]
      have lt: "nat h < nat n" using sh(1) n by simp
      from less.prems(2) have "init_num_params h = Inl e"
        unfolding init_num_params_rec [OF n Inr] by (auto split: sum.splits)
      from less.hyps [OF lt sh(3) [OF n] this] show ?thesis .
    qed
  qed
qed

section \<open>Facts about convolution, pooling and circuit generation\<close>

lemma pool_loop_map:
  "pool_loop i old_size = map (\<lambda>j. CNOT j (old_size - j - 1)) [i..old_size - 1]"
proof (induction i old_size rule: pool_loop.induct)
  case (1 i old_size)
  show ?case
  proof (cases "i < old_size")
    case True
    then have "[i..old_size - 1] = i # [i + 1..old_size - 1]"
      by (simp add: upto_rec1)
    with True 1 show ?thesis by (subst pool_loop.simps) simp
  next
    case False
    then show ?thesis by (subst pool_loop.simps) simp
  qed
qed

lemma ry_params_append: "ry_params (xs @ ys) = ry_params xs @ ry_params ys"
  by (induction xs rule: ry_params.induct) simp_all

lemma py_index_in_range:
  "0 \<le> i \<Longrightarrow> i < int (length xs) \<Longrightarrow> py_index xs i = Inr (xs ! nat i)"
  by (simp add: py_index_def)

lemma py_index_beyond:
  "int (length xs) \<le> i \<Longrightarrow> py_index xs i = Inl IndexError"
  by (simp add: py_index_def)

lemma drop_two:
  assumes "Suc k < length xs"
  shows "drop k xs = xs ! k # xs ! Suc k # drop (Suc (Suc k)) xs"
proof -
  have "drop k xs = xs ! k # drop (Suc k) xs"
    using assms by (simp add: Cons_nth_drop_Suc)
  also have "drop (Suc k) xs = xs ! Suc k # drop (Suc (Suc k)) xs"
    using assms by (simp add: Cons_nth_drop_Suc)
  finally show ?thesis .
qed

lemma convolution_loop_consumes:
  assumes "0 \<le> i_param" and "i \<le> n" and "i_param + 2 * (n - i) \<le> int (length ps)"
  shows "\<exists>gs :: ('p, 'x) op list.
            convolution_loop n q (ps :: 'p list) i i_param = Inr (gs, i_param + 2 * (n - i))
            \<and> ry_params gs = take (nat (2 * (n - i))) (drop (nat i_param) ps)"
  using assms
proof (induction "nat (n - i)" arbitrary: i i_param)
  case 0
  then have "i = n" by simp
  then show ?case by (subst convolution_loop.simps) simp
next
  case (Suc k)
  then have lt: "i < n" by linarith
  from Suc.hyps(2) have k: "k = nat (n - (i + 1))" by linarith
  have bound: "i_param + 2 \<le> int (length ps)"
  proof -
    have "1 \<le> n - i" using lt by simp
    then have "2 * 1 \<le> 2 * (n - i)" by (rule mult_left_mono) simp
    with Suc.prems(3) show ?thesis by simp
  qed
  have i0: "py_index ps i_param = Inr (ps ! nat i_param)"
    using Suc.prems(1) bound by (intro py_index_in_range) simp_all
  have i1: "py_index ps (i_param + 1) = Inr (ps ! nat (i_param + 1))"
    using Suc.prems(1) bound by (intro py_index_in_range) simp_all
  have "\<exists>gs :: ('p, 'x) op list. convolution_loop n q ps (i + 1) (i_param + 2) = Inr (gs, i_param + 2 + 2 * (n - (i + 1)))
            \<and> ry_params gs = take (nat (2 * (n - (i + 1)))) (drop (nat (i_param + 2)) ps)"
  proof (rule Suc.hyps(1) [OF k])
    show "0 \<le> i_param + 2" using Suc.prems(1) by simp
    show "i + 1 \<le> n" using lt by simp
    show "i_param + 2 + 2 * (n - (i + 1)) \<le> int (length ps)" using Suc.prems(3) by simp
  qed
  then obtain gs :: "('p, 'x) op list" where
    gs: "convolution_loop n q ps (i + 1) (i_param + 2) = Inr (gs, i_param + 2 + 2 * (n - (i + 1)))"
    and rp: "ry_params gs = take (nat (2 * (n - (i + 1)))) (drop (nat (i_param + 2)) ps)"
    by blast
  let ?t = "(i + q) mod n"
  let ?gs = "RY (ps ! nat i_param) i # RY (ps ! nat (i_param + 1)) ?t # CNOT i ?t # gs"
  have res: "convolution_loop n q ps i i_param = Inr (?gs, i_param + 2 + 2 * (n - (i + 1)))"
    using lt by (subst convolution_loop.simps) (simp add: i0 i1 gs Let_def)
  have len: "Suc (nat i_param) < length ps" using Suc.prems(1) bound by linarith
  have n2: "nat (2 * (n - i)) = Suc (Suc (nat (2 * (n - (i + 1)))))"
  proof -
    define d where "d = n - (i + 1)"
    have d: "0 \<le> d" "n - i = d + 1" using lt by (simp_all add: d_def)
    have "nat (2 * (d + 1)) = Suc (Suc (nat (2 * d)))" using d(1) by simp
    then show ?thesis unfolding d(2) d_def .
  qed
  have a1: "nat (i_param + 1) = Suc (nat i_param)" using Suc.prems by linarith
  have a2: "nat (i_param + 2) = Suc (Suc (nat i_param))" using Suc.prems by linarith
  have "ry_params ?gs = take (nat (2 * (n - i))) (drop (nat i_param) ps)"
    unfolding n2 drop_two [OF len] by (simp add: rp a1 a2)
  moreover have "i_param + 2 + 2 * (n - (i + 1)) = i_param + 2 * (n - i)" by simp
  ultimately show ?case using res by auto
qed

lemma convolution_loop_short:
  assumes "0 \<le> i_param" and "i < n" and "int (length ps) < i_param + 2 * (n - i)"
  shows "convolution_loop n q (ps :: 'p list) i i_param = (Inl IndexError :: py_error + (('p, 'x) op list \<times> int))"
  using assms
proof (induction "nat (n - i)" arbitrary: i i_param)
  case 0
  then show ?case by simp
next
  case (Suc k)
  then have lt: "i < n" by linarith
  from Suc.hyps(2) have k: "k = nat (n - (i + 1))" by linarith
  show ?case
  proof (cases "i_param + 1 < int (length ps)")
    case True
    have i0: "py_index ps i_param = Inr (ps ! nat i_param)"
      using Suc.prems True by (intro py_index_in_range) linarith+
    have i1: "py_index ps (i_param + 1) = Inr (ps ! nat (i_param + 1))"
      using Suc.prems True by (intro py_index_in_range) linarith+
    have "i + 1 \<noteq> n" using Suc.prems(3) True by auto
    with lt have "i + 1 < n" by simp
    moreover have "int (length ps) < i_param + 2 + 2 * (n - (i + 1))"
      using Suc.prems(3) by simp
    moreover have "0 \<le> i_param + 2" using Suc.prems(1) by simp
    ultimately
    have "convolution_loop n q ps (i + 1) (i_param + 2) = (Inl IndexError :: py_error + (('p, 'x) op list \<times> int))"
      by (intro Suc.hyps(1) [OF k])
    then show ?thesis
      using lt by (subst convolution_loop.simps) (simp add: i0 i1 Let_def)
  next
    case False
    show ?thesis
    proof (cases "i_param < int (length ps)")
      case True
      have i0: "py_index ps i_param = Inr (ps ! nat i_param)"
        using Suc.prems True by (intro py_index_in_range) linarith+
      have i1: "py_index ps (i_param + 1) = Inl IndexError"
        using False by (intro py_index_beyond) linarith
      show ?thesis using lt by (subst convolution_loop.simps) (simp add: i0 i1 Let_def)
    next
      case False
      have i0: "py_index ps i_param = Inl IndexError"
        using False by (intro py_index_beyond) linarith
      show ?thesis using lt by (subst convolution_loop.simps) (simp add: i0 Let_def)
    qed
  qed
qed

lemma py_slice_from: "0 \<le> k \<Longrightarrow> py_slice xs (Some k) None = drop (nat k) xs"
  by (simp add: py_slice_def slice_bound_def Let_def min_def)

lemma ry_params_pool_loop: "ry_params (pool_loop i old_size) = []"
proof -
  have "ry_params (map (\<lambda>j. CNOT j (old_size - j - 1)) js) = ([] :: 'a list)" for js
    by (induction js) simp_all
  then show ?thesis by (simp add: pool_loop_map)
qed

lemma ry_params_Ext: "ry_params (map Ext xs) = []"
  by (induction xs) simp_all

lemma pool_2: "pool 2 = Inr (pool_loop 1 2, 1)"
  by (simp add: pool_def ceil_half_2)

lemma convolution_2:
  assumes "2 \<le> length xs"
  shows "convolution 2 xs = Inr ([RY (xs ! 0) 0, RY (xs ! 1) 1, CNOT 0 1], 2)"
proof -
  have "py_index xs 0 = Inr (xs ! nat 0)" using assms by (intro py_index_in_range) auto
  moreover have "py_index xs 1 = Inr (xs ! nat 1)" using assms by (intro py_index_in_range) auto
  ultimately show ?thesis by (simp add: convolution_def)
qed

lemma convolution_2_short:
  assumes "length xs < 2"
  shows "convolution 2 xs = Inl IndexError"
proof (cases "xs = []")
  case True
  then show ?thesis by (simp add: convolution_def py_index_beyond)
next
  case False
  with assms have "length xs = 1" by (cases xs) simp_all
  then have "py_index xs 0 = Inr (xs ! nat 0)" and "py_index xs 1 = Inl IndexError"
    by (simp_all add: py_index_def)
  then show ?thesis by (simp add: convolution_def)
qed

lemma convolution_big:
  assumes "2 < n" and "2 * n \<le> int (length xs)"
  shows "\<exists>gs :: ('p, 'x) op list. convolution n (xs :: 'p list) = Inr (gs, 2 * n)
            \<and> ry_params gs = take (nat (2 * n)) xs"
proof -
  have "\<exists>gs :: ('p, 'x) op list.
          convolution_loop n (max (n - 3) 1) xs 0 0 = Inr (gs, 0 + 2 * (n - 0))
          \<and> ry_params gs = take (nat (2 * (n - 0))) (drop (nat 0) xs)"
    using assms by (intro convolution_loop_consumes) simp_all
  with assms(1) show ?thesis
    by (simp add: convolution_def convolution_general_def)
qed

lemma convolution_big_short:
  assumes "2 < n" and "int (length xs) < 2 * n"
  shows "convolution n (xs :: 'p list) = (Inl IndexError :: py_error + (('p, 'x) op list \<times> int))"
proof -
  have "convolution_loop n (max (n - 3) 1) xs 0 0
          = (Inl IndexError :: py_error + (('p, 'x) op list \<times> int))"
    using assms by (intro convolution_loop_short) simp_all
  with assms(1) show ?thesis
    by (simp add: convolution_def convolution_general_def)
qed


lemma generate_loop_consumes:
  assumes "2 \<le> sz" and "0 \<le> used" and "init_num_params sz = Inr c"
    and "used + c \<le> int (length ps)"
  shows "\<exists>tape' :: ('p, 'x) op list.
           generate_loop (ps :: 'p list) tape used sz = Some (Inr (tape', used + c, 1))
           \<and> ry_params tape' = ry_params tape @ take (nat c) (drop (nat used) ps)"
  using assms
proof (induction "nat sz" arbitrary: sz tape used c rule: less_induct)
  case less
  have sl: "py_slice ps (Some used) None = drop (nat used) ps"
    using less.prems(2) by (rule py_slice_from)
  show ?case
  proof (cases "sz = 2")
    case True
    have c: "c = 2" using less.prems(3) True by (simp add: init_num_params_2)
    have len: "Suc (nat used) < length ps"
      using less.prems c by simp
    then have l2: "2 \<le> length (drop (nat used) ps)" by simp
    have conv: "convolution 2 (drop (nat used) ps)
          = Inr ([RY (ps ! nat used) 0, RY (ps ! Suc (nat used)) 1, CNOT 0 1], 2)"
      using convolution_2 [OF l2] len by simp
    let ?t = "tape @ [RY (ps ! nat used) 0, RY (ps ! Suc (nat used)) 1, CNOT 0 1] @ pool_loop 1 2"
    have "generate_loop ps tape used sz = Some (Inr (?t, used + 2, 1))"
      unfolding True by (subst generate_loop.simps) (simp add: sl conv pool_2)
    moreover have "ry_params ?t = ry_params tape @ take 2 (drop (nat used) ps)"
      by (simp add: ry_params_append ry_params_pool_loop drop_two [OF len] numeral_2_eq_2)
    ultimately show ?thesis unfolding c by simp
  next
    case False
    with less.prems have n: "2 < sz" by simp
    obtain h where h: "ceil_half sz = Inr h"
      using less.prems(3) init_num_params_raise [OF less.prems(1)] by (cases "ceil_half sz") auto
    note sh = ceil_half_shrinks [OF less.prems(1) h]
    have h2: "2 \<le> h" using sh(3) [OF n] .
    have hlt: "nat h < nat sz" using sh(1) n by simp
    from less.prems(3) obtain c' where c': "init_num_params h = Inr c'" "c = 2 * sz + c'"
      unfolding init_num_params_rec [OF n h] by (auto split: sum.splits)
    have ph: "2 \<le> c'" using h2 c'(1) by (rule init_num_params_ge2)
    have "2 * sz \<le> int (length (drop (nat used) ps))"
      using less.prems c'(2) ph by simp
    from convolution_big [OF n this]
    obtain cg :: "('p, 'x) op list" where
      conv: "convolution sz (drop (nat used) ps) = Inr (cg, 2 * sz)"
      and cgp: "ry_params cg = take (nat (2 * sz)) (drop (nat used) ps)"
      by blast
    let ?pg = "pool_loop h sz :: ('p, 'x) op list"
    have step: "generate_loop ps tape used sz = generate_loop ps (tape @ cg @ ?pg) (used + 2 * sz) h"
      using h2 by (subst generate_loop.simps) (simp add: sl conv pool_def h)
    have "\<exists>tape' :: ('p, 'x) op list.
           generate_loop ps (tape @ cg @ ?pg) (used + 2 * sz) h
             = Some (Inr (tape', used + 2 * sz + c', 1))
           \<and> ry_params tape' = ry_params (tape @ cg @ ?pg)
                 @ take (nat c') (drop (nat (used + 2 * sz)) ps)"
    proof (rule less.hyps [OF hlt h2 _ c'(1)])
      show "0 \<le> used + 2 * sz" using less.prems(2) n by simp
      show "used + 2 * sz + c' \<le> int (length ps)"
        using less.prems(4) c'(2) by simp
    qed
    then obtain tape' :: "('p, 'x) op list" where
      r: "generate_loop ps (tape @ cg @ ?pg) (used + 2 * sz) h
             = Some (Inr (tape', used + 2 * sz + c', 1))"
      and rp: "ry_params tape' = ry_params (tape @ cg @ ?pg)
                 @ take (nat c') (drop (nat (used + 2 * sz)) ps)"
      by blast
    have nn: "nat c = nat (2 * sz) + nat c'"
      using c'(2) n ph by (simp add: nat_add_distrib)
    have dd: "drop (nat (used + 2 * sz)) ps = drop (nat (2 * sz)) (drop (nat used) ps)"
      using less.prems(2) n by (simp add: nat_add_distrib add.commute)
    have "ry_params tape' = ry_params tape @ take (nat c) (drop (nat used) ps)"
      unfolding rp nn take_add dd
      by (simp add: ry_params_append ry_params_pool_loop cgp)
    with step r c'(2) show ?thesis by simp
  qed
qed

lemma generate_loop_short:
  assumes "2 \<le> sz" and "0 \<le> used" and "init_num_params sz = Inr c"
    and "int (length ps) < used + c"
  shows "generate_loop (ps :: 'p list) (tape :: ('p, 'x) op list) used sz = Some (Inl IndexError)"
  using assms
proof (induction "nat sz" arbitrary: sz tape used c rule: less_induct)
  case less
  have sl: "py_slice ps (Some used) None = drop (nat used) ps"
    using less.prems(2) by (rule py_slice_from)
  show ?case
  proof (cases "sz = 2")
    case True
    have c: "c = 2" using less.prems(3) True by (simp add: init_num_params_2)
    have "length (drop (nat used) ps) < 2"
      using less.prems c by simp
    then have "convolution 2 (drop (nat used) ps)
        = (Inl IndexError :: py_error + (('p, 'x) op list \<times> int))"
      by (rule convolution_2_short)
    then show ?thesis unfolding True by (subst generate_loop.simps) (simp add: sl)
  next
    case False
    with less.prems have n: "2 < sz" by simp
    obtain h where h: "ceil_half sz = Inr h"
      using less.prems(3) init_num_params_raise [OF less.prems(1)] by (cases "ceil_half sz") auto
    note sh = ceil_half_shrinks [OF less.prems(1) h]
    have h2: "2 \<le> h" using sh(3) [OF n] .
    have hlt: "nat h < nat sz" using sh(1) n by simp
    from less.prems(3) obtain c' where c': "init_num_params h = Inr c'" "c = 2 * sz + c'"
      unfolding init_num_params_rec [OF n h] by (auto split: sum.splits)
    show ?thesis
    proof (cases "2 * sz \<le> int (length (drop (nat used) ps))")
      case True
      from convolution_big [OF n True]
      obtain cg :: "('p, 'x) op list" where
        conv: "convolution sz (drop (nat used) ps) = Inr (cg, 2 * sz)"
        by blast
      let ?pg = "pool_loop h sz :: ('p, 'x) op list"
      have step: "generate_loop ps tape used sz
           = generate_loop ps (tape @ cg @ ?pg) (used + 2 * sz) h"
        using h2 by (subst generate_loop.simps) (simp add: sl conv pool_def h)
      have "generate_loop ps (tape @ cg @ ?pg) (used + 2 * sz) h = Some (Inl IndexError)"
      proof (rule less.hyps [OF hlt h2 _ c'(1)])
        show "0 \<le> used + 2 * sz" using less.prems(2) n by simp
        show "int (length ps) < used + 2 * sz + c'"
          using less.prems(4) c'(2) by simp
      qed
      with step show ?thesis by simp
    next
      case False
      then have "int (length (drop (nat used) ps)) < 2 * sz" by simp
      from convolution_big_short [OF n this]
      have "convolution sz (drop (nat used) ps)
          = (Inl IndexError :: py_error + (('p, 'x) op list \<times> int))" .
      then show ?thesis by (subst generate_loop.simps) (simp add: sl)
    qed
  qed
qed


section \<open>The claims about the QCNN topology\<close>

text \<open>
  C1. For every register size \<open>n \<ge> 2\<close>, the parameter count precomputed by the constructor
  equals the number of parameters consumed by the convolution steps of one full circuit
  generation: given at least that many parameters, the generation loop returns with
  \<open>num_params_utilized\<close> equal to the precomputed count, one position left, and the rotations
  on the tape read exactly the first \<open>num_params\<close> parameters, each once and in order; given
  fewer, a parameter read is out of range. The constructor computes a count for every
  \<open>n\<close> up to \<open>2^1024\<close>; where its halving leaves the range of the doubles it raises
  OverflowError, and generation raises as well.
\<close>

theorem param_count_lockstep:
  assumes "2 \<le> n"
  shows "(\<forall>c. init_num_params n = Inr c \<longrightarrow>
            (c \<le> int (length ps) \<longrightarrow>
               (\<exists>tape :: ('p, 'x) op list.
                  generate_loop (ps :: 'p list) (map Ext (embedding fv)) 0 n
                    = Some (Inr (tape, c, 1))
                  \<and> ry_params tape = take (nat c) ps))
          \<and> (int (length ps) < c \<longrightarrow>
               generate_loop ps (map Ext (embedding fv) :: ('p, 'x) op list) 0 n
                 = Some (Inl IndexError)))
       \<and> (n \<le> 2 ^ 1024 \<longrightarrow> (\<exists>c. init_num_params n = Inr c))
       \<and> (\<forall>e. init_num_params n = Inl e \<longrightarrow>
            e = OverflowError \<and> 2 ^ 1024 < n
            \<and> (\<exists>e'. generate_loop ps (map Ext (embedding fv) :: ('p, 'x) op list) 0 n
                      = Some (Inl e')))"
proof (intro conjI allI impI)
  fix c assume c: "init_num_params n = Inr c" and "c \<le> int (length ps)"
  then have "0 + c \<le> int (length ps)" by simp
  from generate_loop_consumes [OF assms _ c this, of "map Ext (embedding fv)"]
  show "\<exists>tape :: ('p, 'x) op list.
               generate_loop ps (map Ext (embedding fv)) 0 n = Some (Inr (tape, c, 1))
               \<and> ry_params tape = take (nat c) ps"
    by (simp add: ry_params_Ext)
next
  fix c assume c: "init_num_params n = Inr c" and "int (length ps) < c"
  then have "int (length ps) < 0 + c" by simp
  from generate_loop_short [OF assms _ c this]
  show "generate_loop ps (map Ext (embedding fv) :: ('p, 'x) op list) 0 n = Some (Inl IndexError)"
    by simp
next
  assume "n \<le> 2 ^ 1024"
  with assms show "\<exists>c. init_num_params n = Inr c" by (rule init_num_params_returns)
next
  fix e assume e: "init_num_params n = Inl e"
  from init_num_params_error [OF e] show "e = OverflowError" and big: "2 ^ 1024 < n" .
  have ch: "\<exists>e'. ceil_half n = Inl e'"
  proof (cases "ceil_half n")
    case (Inl e')
    then show ?thesis by blast
  next
    case (Inr h)
    note sh = ceil_half_shrinks [OF assms Inr]
    have n2: "2 < n" using e by (cases "n = 2") (use assms in \<open>simp_all add: init_num_params_2\<close>)
    from init_num_params_returns [OF sh(3) [OF n2] sh(4)] e
    show ?thesis by (auto simp: init_num_params_rec [OF n2 Inr])
  qed
  then obtain e' where e': "ceil_half n = Inl e'" by blast
  show "\<exists>e'. generate_loop ps (map Ext (embedding fv) :: ('p, 'x) op list) 0 n = Some (Inl e')"
    by (subst generate_loop.simps) (auto simp: pool_def e' split: sum.splits)
qed

lemma init_num_params_4: "init_num_params 4 = Inr 10"
proof -
  have "ceil_half 4 = Inr 2" using ceil_half_exact [of 4] by (simp add: spec_half_div)
  then show ?thesis using init_num_params_rec [of 4 2] by (simp add: init_num_params_2)
qed

theorem param_count_lockstep_witness:
  "(2::int) \<le> 4 \<and> init_num_params 4 = Inr 10
   \<and> (\<exists>tape :: (nat, nat) op list.
         generate_loop [0, 1, 2, 3, 4, 5, 6, 7, 8, 9 :: nat] (map Ext ((\<lambda>v. [v]) (7 :: nat))) 0 4
           = Some (Inr (tape, 10, 1))
         \<and> ry_params tape = [0, 1, 2, 3, 4, 5, 6, 7, 8, 9])
   \<and> generate_loop [0, 1, 2 :: nat] (map Ext ((\<lambda>v. [v]) (7 :: nat)) :: (nat, nat) op list) 0 4
           = Some (Inl IndexError)"
proof -
  have n: "(2::int) \<le> 4" by simp
  show ?thesis
    using param_count_lockstep [OF n, of "[0, 1, 2, 3, 4, 5, 6, 7, 8, 9 :: nat]" "\<lambda>v. [v]" 7]
          param_count_lockstep [OF n, of "[0, 1, 2 :: nat]" "\<lambda>v. [v]" 7]
    by (simp add: init_num_params_4)
qed

text \<open>
  C9. The constructor's parameter count is positive only for \<open>num_qubits \<ge> 2\<close>. For
  \<open>num_qubits \<le> 1\<close> (in particular 1 and 0) the loop body never runs, the count is \<open>-2\<close>, the
  initial parameter vector is requested with that negative length, and no instance is
  built. For \<open>num_qubits \<ge> 2\<close> up to \<open>2^1024\<close> the count is positive and the instance holds
  exactly \<open>num_params\<close> parameters; the only other outcome is the OverflowError of the
  halving beyond the doubles.
\<close>

theorem init_needs_two_qubits:
  "(\<forall>c. init_num_params n = Inr c \<longrightarrow> (0 < c \<longleftrightarrow> 2 \<le> n))
   \<and> (n \<le> 1 \<longrightarrow> num_params_loop 0 n = Inr (0, n) \<and> init_num_params n = Inr (- 2)
                 \<and> randn draws (- 2) = Inl ValueError
                 \<and> init draws n = Inl ValueError)
   \<and> (2 \<le> n \<and> n \<le> 2 ^ 1024 \<longrightarrow>
         (\<exists>solver c. init_num_params n = Inr c \<and> 0 < c \<and> init draws n = Inr solver
                 \<and> self_num_qubits solver = n \<and> self_num_params solver = c
                 \<and> int (length (self_params solver)) = c))
   \<and> (\<forall>e. init_num_params n = Inl e \<longrightarrow>
         e = OverflowError \<and> 2 ^ 1024 < n \<and> init draws n = Inl OverflowError)"
proof (intro conjI allI impI)
  fix c assume c: "init_num_params n = Inr c"
  show "0 < c \<longleftrightarrow> 2 \<le> n"
  proof (cases "2 \<le> n")
    case True
    from init_num_params_ge2 [OF True c] True show ?thesis by simp
  next
    case False
    then have "n \<le> 1" by simp
    from init_num_params_small [OF this] c False show ?thesis by simp
  qed
next
  assume n: "n \<le> 1"
  then show "num_params_loop 0 n = Inr (0, n)" by (rule num_params_loop_exit)
  from n show s: "init_num_params n = Inr (- 2)" by (rule init_num_params_small)
  show r: "randn draws (- 2) = Inl ValueError" by (simp add: randn_def)
  show "init draws n = Inl ValueError" by (simp add: init_def s r)
next
  assume n: "2 \<le> n \<and> n \<le> 2 ^ 1024"
  then obtain c where c: "init_num_params n = Inr c"
    using init_num_params_returns [of n] by blast
  have n2: "2 \<le> n" using n by (rule conjunct1)
  have c2: "2 \<le> c" using n2 c by (rule init_num_params_ge2)
  let ?solver = "\<lparr>self_num_qubits = n, self_num_params = c,
                   self_params = map (\<lambda>x. 0.5 * x) (map draws [0..<nat c])\<rparr>"
  have r: "randn draws c = Inr (map draws [0..<nat c])" using c2 by (simp add: randn_def)
  have i: "init draws n = Inr ?solver" by (simp add: init_def c r)
  have "init_num_params n = Inr c \<and> 0 < c \<and> init draws n = Inr ?solver
                 \<and> self_num_qubits ?solver = n \<and> self_num_params ?solver = c
                 \<and> int (length (self_params ?solver)) = c"
    using c c2 i by simp
  then show "\<exists>solver c. init_num_params n = Inr c \<and> 0 < c \<and> init draws n = Inr solver
                 \<and> self_num_qubits solver = n \<and> self_num_params solver = c
                 \<and> int (length (self_params solver)) = c"
    by blast
next
  fix e assume e: "init_num_params n = Inl e"
  from init_num_params_error [OF e] show o: "e = OverflowError" and "2 ^ 1024 < n" .
  show "init draws n = Inl OverflowError" using e o by (simp add: init_def)
qed

theorem init_needs_two_qubits_witness:
  "init_num_params 1 = Inr (- 2) \<and> init_num_params 0 = Inr (- 2)
   \<and> init (\<lambda>k. 1) 1 = Inl ValueError \<and> init (\<lambda>k. 1) 0 = Inl ValueError
   \<and> init (\<lambda>k. 1) 2 = Inr \<lparr>self_num_qubits = 2, self_num_params = 2, self_params = [0.5, 0.5]\<rparr>"
proof -
  have "[0..<2] = [0, Suc 0]" by (simp add: upt_rec)
  then have "init (\<lambda>k. 1) 2
      = Inr \<lparr>self_num_qubits = 2, self_num_params = 2, self_params = [0.5, 0.5]\<rparr>"
    by (simp add: init_def randn_def init_num_params_2)
  then show ?thesis
    using init_needs_two_qubits [of 1 "\<lambda>k. 1"] init_needs_two_qubits [of 0 "\<lambda>k. 1"]
          init_needs_two_qubits [of 2 "\<lambda>k. 1"]
    by simp
qed

lemma convolution_loop_done: "convolution_loop n q ps n k = Inr ([], k)"
  by (subst convolution_loop.simps) simp

lemma convolution_general_2:
  assumes "4 \<le> length ps"
  shows "convolution_general 2 ps
           = Inr ([RY (ps ! 0) 0, RY (ps ! 1) 1, CNOT 0 1, RY (ps ! 2) 1, RY (ps ! 3) 0, CNOT 1 0], 4)"
proof -
  have i0: "py_index ps 0 = Inr (ps ! nat 0)" using assms by (intro py_index_in_range) auto
  have i1: "py_index ps 1 = Inr (ps ! nat 1)" using assms by (intro py_index_in_range) auto
  have i2: "py_index ps 2 = Inr (ps ! nat 2)" using assms by (intro py_index_in_range) auto
  have i3: "py_index ps 3 = Inr (ps ! nat 3)" using assms by (intro py_index_in_range) auto
  have l2: "convolution_loop 2 1 ps 1 2 = Inr ([RY (ps ! 2) 1, RY (ps ! 3) 0, CNOT 1 0], 4)"
    by (subst convolution_loop.simps) (simp add: i2 i3 convolution_loop_done)
  have l1: "convolution_loop 2 1 ps 0 0
      = Inr ([RY (ps ! 0) 0, RY (ps ! 1) 1, CNOT 0 1, RY (ps ! 2) 1, RY (ps ! 3) 0, CNOT 1 0], 4)"
    by (subst convolution_loop.simps) (simp add: i0 i1 l2)
  then show ?thesis by (simp add: convolution_general_def)
qed

lemma convolution_general_2_short:
  assumes "length ps < 4"
  shows "convolution_general 2 (ps :: 'p list) = (Inl IndexError :: py_error + (('p, 'x) op list \<times> int))"
proof -
  have "convolution_loop 2 1 ps 0 0 = (Inl IndexError :: py_error + (('p, 'x) op list \<times> int))"
    using assms by (intro convolution_loop_short) simp_all
  then show ?thesis by (simp add: convolution_general_def)
qed

text \<open>
  C2 (as stated, refuted). At size 2 the general-case formula does not compute what the
  base case computes: on four parameters it queues six gates and consumes 4 parameters, the
  base case three gates and 2 parameters; on the two parameters the base case needs, the
  general case reads out of range.
\<close>

theorem general_case_at_two_counterexample:
  "(convolution_general 2 [10, 20, 30, 40 :: int] :: py_error + ((int, unit) op list \<times> int))
     = Inr ([RY 10 0, RY 20 1, CNOT 0 1, RY 30 1, RY 40 0, CNOT 1 0], 4)
   \<and> (convolution 2 [10, 20, 30, 40 :: int] :: py_error + ((int, unit) op list \<times> int))
     = Inr ([RY 10 0, RY 20 1, CNOT 0 1], 2)
   \<and> (convolution_general 2 [10, 20, 30, 40 :: int] :: py_error + ((int, unit) op list \<times> int))
     \<noteq> convolution 2 [10, 20, 30, 40]
   \<and> (convolution_general 2 [10, 20 :: int] :: py_error + ((int, unit) op list \<times> int))
     = Inl IndexError
   \<and> (convolution 2 [10, 20 :: int] :: py_error + ((int, unit) op list \<times> int))
     = Inr ([RY 10 0, RY 20 1, CNOT 0 1], 2)"
  by (simp add: convolution_general_2 convolution_general_2_short convolution_2)

text \<open>
  C2 (amended). At size 2 the general-case formula, with target offset \<open>max(2 - 3, 1) = 1\<close>,
  runs two iterations: it queues the base case's three gates (rotation on 0, rotation on 1,
  entangling gate 0 to 1) and then a rotation on 1, a rotation on 0 and an entangling gate
  1 to 0, consuming 4 parameters, and raises when fewer than 4 are supplied. The explicit
  base case queues only the first three gates and consumes 2 parameters (raising when fewer
  than 2 are supplied). So the base case is the first iteration of the general case, not
  the whole of it.
\<close>

theorem general_case_at_two:
  "(convolution_general 2 (ps :: 'p list) :: py_error + (('p, 'x) op list \<times> int))
     = (if 4 \<le> length ps
        then Inr ([RY (ps ! 0) 0, RY (ps ! 1) 1, CNOT 0 1, RY (ps ! 2) 1, RY (ps ! 3) 0, CNOT 1 0], 4)
        else Inl IndexError)
   \<and> (convolution 2 ps :: py_error + (('p, 'x) op list \<times> int))
     = (if 2 \<le> length ps
        then Inr ([RY (ps ! 0) 0, RY (ps ! 1) 1, CNOT 0 1], 2)
        else Inl IndexError)"
proof -
  have a: "(convolution_general 2 ps :: py_error + (('p, 'x) op list \<times> int))
     = (if 4 \<le> length ps
        then Inr ([RY (ps ! 0) 0, RY (ps ! 1) 1, CNOT 0 1, RY (ps ! 2) 1, RY (ps ! 3) 0, CNOT 1 0], 4)
        else Inl IndexError)"
    by (cases "4 \<le> length ps") (simp_all add: convolution_general_2 convolution_general_2_short)
  have b: "(convolution 2 ps :: py_error + (('p, 'x) op list \<times> int))
     = (if 2 \<le> length ps
        then Inr ([RY (ps ! 0) 0, RY (ps ! 1) 1, CNOT 0 1], 2)
        else Inl IndexError)"
    by (cases "2 \<le> length ps") (simp_all add: convolution_2 convolution_2_short)
  from a b show ?thesis by (rule conjI)
qed

theorem general_case_at_two_witness:
  "(convolution_general 2 [1, 2, 3, 4, 5 :: nat] :: py_error + ((nat, unit) op list \<times> int))
     = Inr ([RY 1 0, RY 2 1, CNOT 0 1, RY 3 1, RY 4 0, CNOT 1 0], 4)
   \<and> (convolution 2 [1, 2, 3, 4, 5 :: nat] :: py_error + ((nat, unit) op list \<times> int))
     = Inr ([RY 1 0, RY 2 1, CNOT 0 1], 2)
   \<and> (convolution_general 2 [1 :: nat] :: py_error + ((nat, unit) op list \<times> int)) = Inl IndexError
   \<and> (convolution 2 [1 :: nat] :: py_error + ((nat, unit) op list \<times> int)) = Inl IndexError"
  using general_case_at_two [of "[1, 2, 3, 4, 5 :: nat]", where ?'x = unit]
        general_case_at_two [of "[1 :: nat]", where ?'x = unit]
  by simp


















section \<open>Facts about slicing and the drivers\<close>

lemma py_slice_to: "0 \<le> p \<Longrightarrow> py_slice xs None (Some p) = take (nat p) xs"
  by (simp add: py_slice_def slice_bound_def Let_def min_def)

lemma py_slice_range:
  assumes "0 \<le> a" and "a \<le> b"
  shows "py_slice xs (Some a) (Some b) = take (nat b - nat a) (drop (nat a) xs)"
proof (cases "nat a \<le> length xs")
  case True
  have "take (min (nat b) (length xs) - nat a) (drop (nat a) xs)
          = take (nat b - nat a) (drop (nat a) xs)"
    by (rule nth_equalityI) (use assms True in \<open>auto simp: min_def\<close>)
  with assms True show ?thesis
    by (simp add: py_slice_def slice_bound_def Let_def min_absorb1)
next
  case False
  with assms show ?thesis
    by (simp add: py_slice_def slice_bound_def Let_def)
qed

lemma split_rejoins: "training_part xs p @ testing_part xs p = xs"
proof (cases "0 \<le> p")
  case True
  then show ?thesis by (simp add: training_part_def testing_part_def py_slice_to py_slice_from)
next
  case False
  then show ?thesis
    by (simp add: training_part_def testing_part_def py_slice_def slice_bound_def Let_def)
qed

lemma float_result_exact_int:
  assumes "\<bar>K\<bar> \<le> 2 ^ 53"
  shows "float_result (of_int K) = Inr (of_int K)"
proof -
  have "\<bar>real_of_int K\<bar> \<le> 2 ^ 53"
    using assms by (metis of_int_abs of_int_le_numeral_power_cancel_iff)
  then have "\<bar>real_of_int K\<bar> < 2 ^ 1024" by simp
  then show ?thesis by (simp add: float_result_def round53_int_le_2_53 [OF assms])
qed

lemma training_period_bounds:
  assumes "0 < r" and "r < 1" and "int (length labels) \<le> 2 ^ 53"
  shows "\<exists>p. training_period r labels = Inr (int p)
             \<and> int p = \<lfloor>round53 (r * real (length labels))\<rfloor>
             \<and> p \<le> length labels
             \<and> \<lfloor>r * real (length labels)\<rfloor> \<le> int p
             \<and> int p \<le> \<lfloor>r * real (length labels)\<rfloor> + 1"
proof -
  let ?N = "length labels"
  let ?x = "r * real ?N"
  let ?y = "round53 ?x"
  have N: "float_result (real ?N) = Inr (real ?N)"
    using float_result_exact_int [of "int ?N"] assms(3) by simp
  have x0: "0 \<le> ?x" using assms(1) by simp
  have xN: "?x \<le> real ?N" using assms(1,2) by (simp add: mult_left_le_one_le)
  have "real ?N \<le> 2 ^ 53" using assms(3) by (metis of_int_of_nat_eq of_int_le_numeral_power_cancel_iff)
  have x53: "\<bar>?x\<bar> < 2 ^ 53"
  proof (cases "?N = 0")
    case True
    then show ?thesis by simp
  next
    case False
    then have "?x < real ?N" using assms(1,2) by simp
    with x0 \<open>real ?N \<le> 2 ^ 53\<close> show ?thesis by simp
  qed
  have y0: "0 \<le> ?y" using x0 by (rule round53_nonneg)
  have "?x \<le> of_int (int ?N)" using xN by simp
  from round53_le_int [OF x53 this] have yN: "?y \<le> real ?N" by simp
  have "\<bar>?y\<bar> < 2 ^ 1024" using y0 yN \<open>real ?N \<le> 2 ^ 53\<close> by simp
  then have fr: "float_result ?x = Inr ?y" by (simp add: float_result_def)
  have tp: "training_period r labels = Inr \<lfloor>?y\<rfloor>"
    using y0 by (simp add: training_period_def N fr py_int_def)
  have f0: "0 \<le> \<lfloor>?y\<rfloor>" using y0 by simp
  have fN: "\<lfloor>?y\<rfloor> \<le> int ?N" using yN by (simp add: floor_le_iff)
  have "of_int \<lfloor>?x\<rfloor> \<le> ?x" by simp
  from round53_ge_int [OF x53 this] have lo: "\<lfloor>?x\<rfloor> \<le> \<lfloor>?y\<rfloor>" by (simp add: le_floor_iff)
  have "?x \<le> of_int (\<lfloor>?x\<rfloor> + 1)" by linarith
  from round53_le_int [OF x53 this] have hi: "\<lfloor>?y\<rfloor> \<le> \<lfloor>?x\<rfloor> + 1"
    by (simp add: floor_le_iff)
  show ?thesis
    using tp f0 fN lo hi by (intro exI [of _ "nat \<lfloor>?y\<rfloor>"]) simp
qed

text \<open>
  C8 (as stated, refuted). The training count is the truncated double product, which is not
  always \<open>floor(training_ratio * N)\<close>: for \<open>training_ratio\<close> the double written \<open>0.7\<close>
  (\<open>3152519739159347 / 2^52\<close>) and 10 samples the exact product lies below 7 by half a unit in
  the last place, rounds to \<open>7.0\<close>, and the training partition has 7 samples where the floor
  of the product is 6.
\<close>

theorem float_split_counterexample:
  "training_period (3152519739159347 / 4503599627370496) (replicate 10 (1 :: real)) = Inr 7
   \<and> \<lfloor>(3152519739159347 / 4503599627370496 :: real) * real (length (replicate 10 (1 :: real)))\<rfloor>
       = 6
   \<and> length (training_part (replicate 10 (1 :: real)) 7) = 7"
proof -
  let ?x = "3152519739159347 / 4503599627370496 * 10 :: real"
  have a: "2 powr of_int 2 \<le> \<bar>?x\<bar>" by simp
  have b: "\<bar>?x\<bar> < 2 powr of_int (2 + 1)" by simp
  have u: "(2::real) powr of_int (2 - 52) = 1 / 2 ^ 50"
    by (simp add: powr_minus inverse_eq_divide)
  have f: "\<lfloor>?x / (1 / 2 ^ 50)\<rfloor> = 7881299347898367" by simp
  have r: "round_half_even (?x / (1 / 2 ^ 50)) = 7881299347898368"
    unfolding round_half_even_def Let_def f by simp
  have y: "round53 ?x = 7" unfolding round53_at [OF a b] u r by simp
  have N: "round53 10 = 10"
    using round53_int_exact [of 10] by simp
  have p: "training_period (3152519739159347 / 4503599627370496) (replicate 10 (1 :: real)) = Inr 7"
    using y by (simp add: training_period_def N float_result_def py_int_def)
  have q: "\<lfloor>(3152519739159347 / 4503599627370496 :: real) * real (length (replicate 10 (1 :: real)))\<rfloor>
       = 6"
    by simp
  have t: "length (training_part (replicate 10 (1 :: real)) 7) = 7"
    by (simp add: training_part_def py_slice_to)
  from p q t show ?thesis by blast
qed

text \<open>
  C8 (amended). For every dataset (of at most \<open>2^53\<close> samples) and every \<open>training_ratio\<close>
  strictly between 0 and 1 the run methods split by position: with \<open>p\<close> the truncation of the
  double product of \<open>training_ratio\<close> and the sample count \<open>N\<close> (which is
  \<open>floor(training_ratio * N)\<close> or, when rounding carries the product up to an integer, one
  more, and never exceeds \<open>N\<close>), the training part is the first \<open>p\<close> samples and the test part
  the remaining \<open>N - p\<close>, for the feature vectors and for the labels alike; the parts are
  disjoint, in the original order, and together give back the dataset. The kernel
  classifier's \<open>run\<close> and the QCNN's \<open>run\<close> work on exactly these parts.
\<close>

theorem positional_split:
  assumes "0 < training_ratio" and "training_ratio < 1"
    and "length feature_vectors = length labels"
    and "int (length labels) \<le> 2 ^ 53"
  shows "\<exists>p. training_period training_ratio labels = Inr (int p)
       \<and> int p = \<lfloor>round53 (training_ratio * real (length labels))\<rfloor>
       \<and> \<lfloor>training_ratio * real (length labels)\<rfloor> \<le> int p
       \<and> int p \<le> \<lfloor>training_ratio * real (length labels)\<rfloor> + 1
       \<and> p \<le> length labels
       \<and> training_part feature_vectors (int p) = take p feature_vectors
       \<and> testing_part feature_vectors (int p) = drop p feature_vectors
       \<and> training_part labels (int p) = take p labels
       \<and> testing_part labels (int p) = drop p labels
       \<and> training_part feature_vectors (int p) @ testing_part feature_vectors (int p)
           = feature_vectors
       \<and> training_part labels (int p) @ testing_part labels (int p) = labels
       \<and> training_part feature_vectors (int p) = map ((!) feature_vectors) [0..<p]
       \<and> testing_part feature_vectors (int p)
           = map ((!) feature_vectors) [p..<length feature_vectors]
       \<and> kernel_run device embedding qml_adjoint num_qubits svm feature_vectors labels
             training_ratio
           = kernel_run_on_split svm (qkernel device embedding qml_adjoint num_qubits)
               (take p feature_vectors) (take p labels) (drop p feature_vectors) (drop p labels)
       \<and> run node get_score uninit self_ps feature_vectors labels optimizer_function
             error_function training_ratio
           = predict_and_score node get_score (empty_like uninit (drop p labels))
               (fst (call_optimizer (optimizer_function self_ps)
                  (\<lambda>ps u. (cost_function node error_function (take p feature_vectors)
                               (take p labels) ps, u)) ()))
               (drop p feature_vectors) (drop p labels)"
proof -
  from training_period_bounds [OF assms(1,2,4)]
  obtain p where per: "training_period training_ratio labels = Inr (int p)"
    and pr: "int p = \<lfloor>round53 (training_ratio * real (length labels))\<rfloor>"
    and ple: "p \<le> length labels"
    and lo: "\<lfloor>training_ratio * real (length labels)\<rfloor> \<le> int p"
    and hi: "int p \<le> \<lfloor>training_ratio * real (length labels)\<rfloor> + 1"
    by blast
  have parts: "training_part xs (int p) = take p xs" "testing_part xs (int p) = drop p xs"
    for xs :: "'z list"
    by (simp_all add: training_part_def testing_part_def py_slice_to py_slice_from)
  have t1: "take p feature_vectors = map ((!) feature_vectors) [0..<p]"
    by (rule nth_equalityI) (use ple assms(3) in simp_all)
  have t2: "drop p feature_vectors = map ((!) feature_vectors) [p..<length feature_vectors]"
    by (rule nth_equalityI) simp_all
  have k: "kernel_run device embedding qml_adjoint num_qubits svm feature_vectors labels
             training_ratio
           = kernel_run_on_split svm (qkernel device embedding qml_adjoint num_qubits)
               (take p feature_vectors) (take p labels) (drop p feature_vectors) (drop p labels)"
    by (simp add: kernel_run_def per parts)
  have r: "run node get_score uninit self_ps feature_vectors labels optimizer_function
             error_function training_ratio
           = predict_and_score node get_score (empty_like uninit (drop p labels))
               (fst (call_optimizer (optimizer_function self_ps)
                  (\<lambda>ps u. (cost_function node error_function (take p feature_vectors)
                               (take p labels) ps, u)) ()))
               (drop p feature_vectors) (drop p labels)"
    by (simp add: run_def Let_def per parts)
  show ?thesis
    apply (rule exI [of _ p])
    unfolding parts
    by (intro conjI) (rule per pr lo hi ple t1 t2 k r refl append_take_drop_id)+
qed

theorem positional_split_witness:
  "(0::real) < 0.5 \<and> (0.5::real) < 1
   \<and> training_period 0.5 [1, - 1, 1, 1, - 1 :: real] = Inr 2
   \<and> training_part [''a'', ''b'', ''c'', ''d'', ''e''] 2 = [''a'', ''b'']
   \<and> testing_part [''a'', ''b'', ''c'', ''d'', ''e''] 2 = [''c'', ''d'', ''e'']
   \<and> training_part [1, - 1, 1, 1, - 1 :: real] 2 = [1, - 1]
   \<and> testing_part [1, - 1, 1, 1, - 1 :: real] 2 = [1, 1, - 1]"
proof -
  have r: "(0::real) < 0.5" "(0.5::real) < 1" by simp_all
  have l: "length [''a'', ''b'', ''c'', ''d'', ''e''] = length [1, - 1, 1, 1, - 1 :: real]"
    by simp
  have b: "int (length [1, - 1, 1, 1, - 1 :: real]) \<le> 2 ^ 53" by simp
  from positional_split [OF r l b]
  obtain p where p: "training_period 0.5 [1, - 1, 1, 1, - 1 :: real] = Inr (int p)"
      "\<lfloor>0.5 * real (length [1, - 1, 1, 1, - 1 :: real])\<rfloor> \<le> int p"
      "p \<le> length [1, - 1, 1, 1, - 1 :: real]"
      "int p = \<lfloor>round53 (0.5 * real (length [1, - 1, 1, 1, - 1 :: real]))\<rfloor>"
      "training_part [''a'', ''b'', ''c'', ''d'', ''e''] (int p) = take p [''a'', ''b'', ''c'', ''d'', ''e'']"
      "testing_part [''a'', ''b'', ''c'', ''d'', ''e''] (int p) = drop p [''a'', ''b'', ''c'', ''d'', ''e'']"
      "training_part [1, - 1, 1, 1, - 1 :: real] (int p) = take p [1, - 1, 1, 1, - 1]"
      "testing_part [1, - 1, 1, 1, - 1 :: real] (int p) = drop p [1, - 1, 1, 1, - 1]"
    by blast
  have "round53 (5 / 2) = 5 / 2"
    using round53_half [of 5] round53_int_exact [of 5] by simp
  with p(4) have "p = 2" by simp
  with p show ?thesis by simp
qed

lemma get_batch_lenght_pos:
  assumes "0 < num_batches"
  shows "get_batch_lenght training_labels num_batches
           = Inr (int (length training_labels) div num_batches)"
proof -
  have "0 \<le> real_of_int (int (length training_labels)) / real_of_int num_batches"
    using assms by simp
  then have "py_int (real_of_int (int (length training_labels)) / real_of_int num_batches)
      = \<lfloor>real_of_int (int (length training_labels)) / real_of_int num_batches\<rfloor>"
    by (simp only: py_int_def if_True)
  also have "\<dots> = int (length training_labels) div num_batches"
    by (rule floor_divide_of_int_eq)
  finally show ?thesis using assms by (simp add: get_batch_lenght_def py_truediv_def)
qed

lemma batched_take_drop:
  assumes "0 \<le> L" and "0 \<le> k"
  shows "batched xs L k = take (nat L) (drop (nat k * nat L) xs)"
proof -
  have a: "0 \<le> k * L" using assms by simp
  have b: "k * L \<le> (k + 1) * L" using assms by (simp add: algebra_simps)
  have c: "nat ((k + 1) * L) - nat (k * L) = nat L"
    using assms by (simp add: algebra_simps nat_add_distrib nat_mult_distrib)
  have d: "nat (k * L) = nat k * nat L" using assms by (simp add: nat_mult_distrib)
  have "batched xs L k = take (nat ((k + 1) * L) - nat (k * L)) (drop (nat (k * L)) xs)"
    unfolding batched_def by (rule py_slice_range [OF a b])
  also have "\<dots> = take (nat L) (drop (nat k * nat L) xs)"
    using c d by simp
  finally show ?thesis .
qed

lemma take_drop_nth: "a + m \<le> length xs \<Longrightarrow> take m (drop a xs) = map ((!) xs) [a..<a + m]"
  by (rule nth_equalityI) simp_all

lemma concat_batches:
  "concat (map (\<lambda>k. take L (drop (k * L) xs)) [0..<N]) = take (N * L) xs"
proof (induction N)
  case 0
  then show ?case by simp
next
  case (Suc N)
  have "take (N * L) xs @ take L (drop (N * L) xs) = take (N * L + L) xs"
    by (simp add: take_add)
  with Suc show ?case by (simp add: add.commute)
qed

lemma batched_cost_function_state:
  assumes "batched_cost_function node ef tvs tls L ps b = (Inr c, b')"
  shows "b' = b + 1"
  using assms by (auto simp: batched_cost_function_def Let_def split: sum.splits)

lemma cost_call_states_count:
  "k < length (cost_call_states opt (batched_cost_function node ef tvs tls L) b)
   \<Longrightarrow> cost_call_states opt (batched_cost_function node ef tvs tls L) b ! k = b + int k"
proof (induction opt arbitrary: b k)
  case (Return ps)
  then show ?case by simp
next
  case (Call ps cont)
  show ?case
  proof (cases k)
    case 0
    then show ?thesis by simp
  next
    case (Suc k')
    obtain res b' where cf: "batched_cost_function node ef tvs tls L ps b = (res, b')"
      by (cases "batched_cost_function node ef tvs tls L ps b")
    show ?thesis
    proof (cases res)
      case (Inl e)
      with Call.prems Suc cf show ?thesis by simp
    next
      case (Inr c)
      with cf have b': "b' = b + 1" by (auto dest: batched_cost_function_state)
      from Call.prems Suc cf Inr
      have "k' < length (cost_call_states (cont c) (batched_cost_function node ef tvs tls L) b')"
        by simp
      then have "cost_call_states (cont c) (batched_cost_function node ef tvs tls L) b' ! k'
                  = b' + int k'"
        by (rule Call.IH [OF rangeI])
      with Suc cf Inr b' show ?thesis by simp
    qed
  qed
qed

lemma interval_unique:
  assumes "0 < L" and "i < N * L"
  shows "\<exists>!k. k < N \<and> k * L \<le> i \<and> i < (k + 1) * (L::nat)"
proof (rule ex1I [of _ "i div L"])
  have "i div L < N" using assms by (simp add: less_mult_imp_div_less)
  moreover have "i div L * L \<le> i" by simp
  moreover have "i < (i div L + 1) * L"
    using assms(1) by (metis Suc_eq_plus1 dividend_less_div_times mult.commute mult_Suc)
  ultimately show "i div L < N \<and> i div L * L \<le> i \<and> i < (i div L + 1) * L" by blast
next
  fix k assume k: "k < N \<and> k * L \<le> i \<and> i < (k + 1) * L"
  then have "k \<le> i div L" using assms(1) by (simp add: less_eq_div_iff_mult_less_eq)
  moreover have "i div L < k + 1" using k assms(1) by (simp add: div_less_iff_less_mult)
  ultimately show "k = i div L" by simp
qed


lemma take_drop_clipped:
  "a \<le> length xs \<Longrightarrow> take m (drop a xs) = map ((!) xs) [a..<min (a + m) (length xs)]"
proof (cases "a + m \<le> length xs")
  case True
  then show ?thesis by (simp add: take_drop_nth min_absorb1)
next
  case False
  then have "take m (drop a xs) = drop a xs" by simp
  also have "\<dots> = map ((!) xs) [a..<length xs]"
    by (rule nth_equalityI) simp_all
  finally show ?thesis using False by (simp add: min_absorb2)
qed

text \<open>
  C3. In \<open>run_batched\<close> with \<open>num_batches = N \<ge> 1\<close> and \<open>L = floor(training_count / N)\<close>: the
  batch length computed is \<open>L\<close>; the \<open>k\<close>-th invocation of the cost function (from 0) runs
  with batch number \<open>k\<close>; for \<open>k < N\<close> it evaluates the error function on exactly the samples
  at positions \<open>[k*L, (k+1)*L)\<close> of the training part, which lie within it; the first \<open>N\<close>
  batches laid end to end are the first \<open>N*L\<close> training samples, every position below
  \<open>N*L\<close> lies in exactly one of them, and no position from \<open>N*L\<close> on lies in any.
\<close>

theorem batches_partition_training_set:
  assumes "0 < num_batches"
    and "length training_vectors = length training_labels"
    and "L = length training_labels div nat num_batches"
    and "N = nat num_batches"
  shows "get_batch_lenght training_labels num_batches = Inr (int L)
       \<and> (\<forall>k < length (cost_call_states opt
                (batched_cost_function node error_function training_vectors training_labels
                   (int L)) 0).
             cost_call_states opt
                (batched_cost_function node error_function training_vectors training_labels
                   (int L)) 0 ! k = int k)
       \<and> (\<forall>k < N.
             (k + 1) * L \<le> length training_vectors
             \<and> batched training_vectors (int L) (int k)
                 = map ((!) training_vectors) [k * L..<(k + 1) * L]
             \<and> batched training_labels (int L) (int k)
                 = map ((!) training_labels) [k * L..<(k + 1) * L]
             \<and> batched_cost_function node error_function training_vectors training_labels
                   (int L) ps (int k)
                 = (case list_comprehension (\<lambda>v. node v ps)
                           (map ((!) training_vectors) [k * L..<(k + 1) * L]) of
                      Inl e \<Rightarrow> (Inl e, int k)
                    | Inr resulting_labels \<Rightarrow>
                        (error_function resulting_labels
                           (map ((!) training_labels) [k * L..<(k + 1) * L]), int k + 1)))
       \<and> concat (map (\<lambda>k. batched training_vectors (int L) (int k)) [0..<N])
           = take (N * L) training_vectors
       \<and> N * L \<le> length training_vectors
       \<and> (\<forall>i < N * L. \<exists>!k. k < N \<and> i \<in> set [k * L..<(k + 1) * L])
       \<and> (\<forall>i \<ge> N * L. \<forall>k < N. i \<notin> set [k * L..<(k + 1) * L])"
proof -
  have Npos: "0 < N" using assms(1,4) by simp
  have NL: "N * L \<le> length training_vectors"
    unfolding assms(2,3,4) by (simp add: mult.commute)
  have g1: "get_batch_lenght training_labels num_batches = Inr (int L)"
    using assms(1) by (simp add: get_batch_lenght_pos assms(3) zdiv_int)
  have g2: "\<forall>k < length (cost_call_states opt
                (batched_cost_function node error_function training_vectors training_labels
                   (int L)) 0).
             cost_call_states opt
                (batched_cost_function node error_function training_vectors training_labels
                   (int L)) 0 ! k = int k"
    using cost_call_states_count [of _ opt node error_function training_vectors
            training_labels "int L" 0]
    by simp
  have bt: "batched xs (int L) (int k) = take L (drop (k * L) xs)" for xs :: "'z list" and k
    using batched_take_drop [of "int L" "int k" xs] by simp
  have g3: "(k + 1) * L \<le> length training_vectors
             \<and> batched training_vectors (int L) (int k)
                 = map ((!) training_vectors) [k * L..<(k + 1) * L]
             \<and> batched training_labels (int L) (int k)
                 = map ((!) training_labels) [k * L..<(k + 1) * L]
             \<and> batched_cost_function node error_function training_vectors training_labels
                   (int L) ps (int k)
                 = (case list_comprehension (\<lambda>v. node v ps)
                           (map ((!) training_vectors) [k * L..<(k + 1) * L]) of
                      Inl e \<Rightarrow> (Inl e, int k)
                    | Inr resulting_labels \<Rightarrow>
                        (error_function resulting_labels
                           (map ((!) training_labels) [k * L..<(k + 1) * L]), int k + 1))"
    if "k < N" for k
  proof -
    have "(k + 1) * L \<le> N * L" using that by (intro mult_le_mono1) simp
    with NL have le: "k * L + L \<le> length training_vectors" by (simp add: add.commute)
    have v: "batched training_vectors (int L) (int k)
                 = map ((!) training_vectors) [k * L..<(k + 1) * L]"
      unfolding bt using take_drop_nth [OF le] by (simp add: add.commute)
    have le': "k * L + L \<le> length training_labels" using le assms(2) by simp
    have l: "batched training_labels (int L) (int k)
                 = map ((!) training_labels) [k * L..<(k + 1) * L]"
      unfolding bt using take_drop_nth [OF le'] by (simp add: add.commute)
    have c: "batched_cost_function node error_function training_vectors training_labels
                   (int L) ps (int k)
                 = (case list_comprehension (\<lambda>v. node v ps)
                           (map ((!) training_vectors) [k * L..<(k + 1) * L]) of
                      Inl e \<Rightarrow> (Inl e, int k)
                    | Inr resulting_labels \<Rightarrow>
                        (error_function resulting_labels
                           (map ((!) training_labels) [k * L..<(k + 1) * L]), int k + 1))"
      unfolding batched_cost_function_def Let_def v l ..
    from le v l c show ?thesis by (simp add: add.commute)
  qed
  have g4: "concat (map (\<lambda>k. batched training_vectors (int L) (int k)) [0..<N])
           = take (N * L) training_vectors"
    unfolding bt by (rule concat_batches)
  have g5: "\<exists>!k. k < N \<and> i \<in> set [k * L..<(k + 1) * L]" if "i < N * L" for i
  proof -
    from that have "0 < L" by (cases "L = 0") simp_all
    from interval_unique [OF this that] show ?thesis by simp
  qed
  have g6: "i \<notin> set [k * L..<(k + 1) * L]" if "N * L \<le> i" "k < N" for i k
  proof -
    have "(k + 1) * L \<le> N * L" using that(2) by (intro mult_le_mono1) simp
    with that(1) show ?thesis by simp
  qed
  from g1 g2 g3 g4 NL g5 g6 show ?thesis by blast
qed


theorem batches_partition_training_set_witness:
  "(0::int) < 2
   \<and> get_batch_lenght [1, - 1, 1, - 1, 1 :: real] 2 = Inr 2
   \<and> batched [10, 20, 30, 40, 50 :: nat] 2 0 = [10, 20]
   \<and> batched [10, 20, 30, 40, 50 :: nat] 2 1 = [30, 40]
   \<and> concat (map (\<lambda>k. batched [10, 20, 30, 40, 50 :: nat] 2 (int k)) [0..<2]) = [10, 20, 30, 40]
   \<and> batched_cost_function (\<lambda>v ps. Inr (real v)) (\<lambda>r l. Inr (sum_list r))
        [10, 20, 30, 40, 50 :: nat] [1, - 1, 1, - 1, 1] 2 [] 1 = (Inr 70, 2)
   \<and> cost_call_states (Call [] (\<lambda>c. Call [c] (\<lambda>c. Return [c])))
        (batched_cost_function (\<lambda>v ps. Inr (real v)) (\<lambda>r l. Inr (sum_list r))
           [10, 20, 30, 40, 50 :: nat] [1, - 1, 1, - 1, 1] 2) 0 = [0, 1]"
proof -
  have a: "(0::int) < 2" by simp
  have b: "length [10, 20, 30, 40, 50 :: nat] = length [1, - 1, 1, - 1, 1 :: real]" by simp
  have c: "(2::nat) = length [1, - 1, 1, - 1, 1 :: real] div nat 2" by simp
  have d: "(2::nat) = nat 2" by simp
  note t = batches_partition_training_set [OF a b c d,
      of "Call [] (\<lambda>c. Call [c] (\<lambda>c. Return [c]))" "\<lambda>v ps. Inr (real v)"
         "\<lambda>r l. Inr (sum_list r)" "[]"]
  have v: "batched [10, 20, 30, 40, 50 :: nat] 2 0 = [10, 20]"
          "batched [10, 20, 30, 40, 50 :: nat] 2 1 = [30, 40]"
    by (simp_all add: batched_take_drop)
  have w: "cost_call_states (Call [] (\<lambda>c. Call [c] (\<lambda>c. Return [c])))
        (batched_cost_function (\<lambda>v ps. Inr (real v)) (\<lambda>r l. Inr (sum_list r))
           [10, 20, 30, 40, 50 :: nat] [1, - 1, 1, - 1, 1] 2) 0 = [0, 1]"
    by (simp add: batched_cost_function_def Let_def v)
  from t have x: "k < 2 \<Longrightarrow>
       batched [10, 20, 30, 40, 50 :: nat] (int 2) (int k)
         = map ((!) [10, 20, 30, 40, 50]) [k * 2..<(k + 1) * 2]
     \<and> batched_cost_function (\<lambda>v ps. Inr (real v)) (\<lambda>r l. Inr (sum_list r))
          [10, 20, 30, 40, 50 :: nat] [1, - 1, 1, - 1, 1] (int 2) [] (int k)
        = (case list_comprehension (\<lambda>v. Inr (real v))
                  (map ((!) [10, 20, 30, 40, 50]) [k * 2..<(k + 1) * 2]) of
             Inl e \<Rightarrow> (Inl e, int k)
           | Inr resulting_labels \<Rightarrow>
               (Inr (sum_list resulting_labels), int k + 1))" for k
    by blast
  have u: "[0..<2] = [0, Suc 0]" "[2..<4] = [2, 3]" by (simp_all add: upt_rec)
  from t have y: "get_batch_lenght [1, - 1, 1, - 1, 1 :: real] 2 = Inr 2"
    and z: "concat (map (\<lambda>k. batched [10, 20, 30, 40, 50 :: nat] (int 2) (int k)) [0..<2])
              = take (2 * 2) [10, 20, 30, 40, 50]"
    by simp_all
  show ?thesis
    using x [of 0] x [of 1] y z w by (simp add: u)
qed

text \<open>
  C10 (as stated, refuted). With 10 training samples and \<open>num_batches = 3\<close> the batch length
  is 3, and the fourth invocation (batch number 3, an extra one) does not get an empty
  slice: it gets the remainder sample at position 9 (the value 100). With \<open>num_batches = 6\<close> the batch length
  is 1 and the seventh invocation gets the sample at position 6, with both slice bounds
  inside the training part.
\<close>

theorem extra_invocation_counterexample:
  "get_batch_lenght [10, 20, 30, 40, 50, 60, 70, 80, 90, 100 :: nat] 3 = Inr 3
   \<and> batched [10, 20, 30, 40, 50, 60, 70, 80, 90, 100 :: nat] 3 3 = [100]
   \<and> batched [10, 20, 30, 40, 50, 60, 70, 80, 90, 100 :: nat] 3 3 \<noteq> []
   \<and> batched_cost_function (\<lambda>v ps. Inr (real v)) (\<lambda>r l. Inr (sum_list r))
        [10, 20, 30, 40, 50, 60, 70, 80, 90, 100 :: nat] [0, 0, 0, 0, 0, 0, 0, 0, 0, 0] 3 [] 3 = (Inr 100, 4)
   \<and> get_batch_lenght [10, 20, 30, 40, 50, 60, 70, 80, 90, 100 :: nat] 6 = Inr 1
   \<and> batched [10, 20, 30, 40, 50, 60, 70, 80, 90, 100 :: nat] 1 6 = [70]"
proof -
  have g: "get_batch_lenght [10, 20, 30, 40, 50, 60, 70, 80, 90, 100 :: nat] 3 = Inr 3"
          "get_batch_lenght [10, 20, 30, 40, 50, 60, 70, 80, 90, 100 :: nat] 6 = Inr 1"
    by (simp_all add: get_batch_lenght_pos)
  have b: "batched [10, 20, 30, 40, 50, 60, 70, 80, 90, 100 :: nat] 3 3 = [100]"
          "batched [0, 0, 0, 0, 0, 0, 0, 0, 0, 0 :: real] 3 3 = [0]"
          "batched [10, 20, 30, 40, 50, 60, 70, 80, 90, 100 :: nat] 1 6 = [70]"
    by (simp_all add: batched_take_drop)
  have c: "batched_cost_function (\<lambda>v ps. Inr (real v)) (\<lambda>r l. Inr (sum_list r))
        [10, 20, 30, 40, 50, 60, 70, 80, 90, 100 :: nat] [0, 0, 0, 0, 0, 0, 0, 0, 0, 0] 3 [] 3 = (Inr 100, 4)"
    by (simp add: batched_cost_function_def Let_def b)
  from g b c show ?thesis by simp
qed

text \<open>
  C10 (amended). In \<open>run_batched\<close> with \<open>num_batches \<ge> 1\<close> and batch length
  \<open>L = floor(training_count / num_batches)\<close>, no invocation of the cost function raises an
  out-of-range error, whatever its batch number \<open>k\<close>: the slice is clipped to the training
  part and holds the samples at positions \<open>[k*L, min((k+1)*L, training_count))\<close>. It is
  empty exactly when \<open>L = 0\<close> or \<open>k*L \<ge> training_count\<close>, and then the error function is
  evaluated on an empty batch of outputs and labels. This is so for every extra invocation
  (\<open>k \<ge> num_batches\<close>) when \<open>num_batches\<close> divides the training count, and for every
  invocation when \<open>num_batches\<close> exceeds the training count (then \<open>L = 0\<close>); otherwise the
  first extra invocations get the remainder samples.
\<close>

theorem extra_invocations_clipped:
  assumes "0 < num_batches"
    and "length training_vectors = length training_labels"
    and "L = length training_labels div nat num_batches"
  shows "get_batch_lenght training_labels num_batches = Inr (int L)
       \<and> batched training_vectors (int L) (int k) = take L (drop (k * L) training_vectors)
       \<and> (k * L \<le> length training_vectors \<longrightarrow>
            batched training_vectors (int L) (int k)
              = map ((!) training_vectors)
                  [k * L..<min ((k + 1) * L) (length training_vectors)])
       \<and> (batched training_vectors (int L) (int k) = []
            \<longleftrightarrow> L = 0 \<or> length training_vectors \<le> k * L)
       \<and> (batched training_vectors (int L) (int k) = [] \<longrightarrow>
            batched training_labels (int L) (int k) = []
            \<and> batched_cost_function node error_function training_vectors training_labels
                 (int L) ps (int k) = (error_function [] [], int k + 1))
       \<and> (nat num_batches dvd length training_labels \<and> nat num_batches \<le> k \<longrightarrow>
            batched training_vectors (int L) (int k) = [])
       \<and> (int (length training_labels) < num_batches \<longrightarrow>
            L = 0 \<and> batched training_vectors (int L) (int k) = [])"
proof -
  have g1: "get_batch_lenght training_labels num_batches = Inr (int L)"
    using assms(1) by (simp add: get_batch_lenght_pos assms(3) zdiv_int)
  have bt: "batched xs (int L) (int k) = take L (drop (k * L) xs)" for xs :: "'z list"
    using batched_take_drop [of "int L" "int k" xs] by simp
  have g3: "batched training_vectors (int L) (int k)
              = map ((!) training_vectors)
                  [k * L..<min ((k + 1) * L) (length training_vectors)]"
    if "k * L \<le> length training_vectors"
    unfolding bt using take_drop_clipped [OF that, of L] by (simp add: add.commute)
  have e: "take L (drop (k * L) xs) = [] \<longleftrightarrow> L = 0 \<or> length xs \<le> k * L" for xs :: "'z list"
    by simp
  have g5: "batched training_labels (int L) (int k) = []
            \<and> batched_cost_function node error_function training_vectors training_labels
                 (int L) ps (int k) = (error_function [] [], int k + 1)"
    if "batched training_vectors (int L) (int k) = []"
  proof -
    from that have "L = 0 \<or> length training_vectors \<le> k * L" unfolding bt e .
    then have l: "batched training_labels (int L) (int k) = []"
      unfolding bt e assms(2) .
    show ?thesis
      using that l by (simp add: batched_cost_function_def Let_def)
  qed
  have g6: "batched training_vectors (int L) (int k) = []"
    if "nat num_batches dvd length training_labels \<and> nat num_batches \<le> k"
  proof -
    from that have "length training_labels = nat num_batches * L"
      unfolding assms(3) by simp
    moreover have "nat num_batches * L \<le> k * L" using that by (intro mult_le_mono1) simp
    ultimately show ?thesis unfolding bt e assms(2) by simp
  qed
  have g7: "L = 0 \<and> batched training_vectors (int L) (int k) = []"
    if "int (length training_labels) < num_batches"
  proof -
    from that have "L = 0" unfolding assms(3) by simp
    then show ?thesis unfolding bt by simp
  qed
  from g1 bt [of training_vectors] g3 e [of training_vectors] g5 g6 g7
  show ?thesis unfolding bt by blast
qed

theorem extra_invocations_clipped_witness:
  "(0::int) < 2
   \<and> batched [10, 20, 30, 40, 50 :: nat] 2 2 = [50]
   \<and> batched [10, 20, 30, 40, 50 :: nat] 2 3 = []
   \<and> batched_cost_function (\<lambda>v ps. Inr (real v)) (\<lambda>r l. Inr (sum_list r + 7))
        [10, 20, 30, 40, 50 :: nat] [1, - 1, 1, - 1, 1] 2 [] 3 = (Inr 7, 4)
   \<and> batched [10, 20, 30 :: nat] 0 1 = []"
proof -
  have a: "(0::int) < 2" by simp
  have b: "length [10, 20, 30, 40, 50 :: nat] = length [1, - 1, 1, - 1, 1 :: real]" by simp
  have c: "(2::nat) = length [1, - 1, 1, - 1, 1 :: real] div nat 2" by simp
  note t2 = extra_invocations_clipped [OF a b c,
      of 2 "\<lambda>v ps. Inr (real v)" "\<lambda>r l. Inr (sum_list r + 7)" "[]"]
  note t3 = extra_invocations_clipped [OF a b c,
      of 3 "\<lambda>v ps. Inr (real v)" "\<lambda>r l. Inr (sum_list r + 7)" "[]"]
  have a': "(0::int) < 5" by simp
  have b': "length [10, 20, 30 :: nat] = length [1, 1, 1 :: real]" by simp
  have c': "(0::nat) = length [1, 1, 1 :: real] div nat 5" by simp
  note t0 = extra_invocations_clipped [OF a' b' c',
      of 1 "\<lambda>v ps. Inr (real v)" "\<lambda>r l. Inr (sum_list r + 7)" "[]"]
  show ?thesis using t2 t3 t0 by simp
qed

lemma list_comprehension_map:
  "(\<And>x. x \<in> set xs \<Longrightarrow> f x = Inr (g x)) \<Longrightarrow> list_comprehension f xs = Inr (map g xs)"
  by (induction xs) simp_all

text \<open>
  C6. For every pair \<open>(a, b)\<close> of feature vectors from the two sets handed to the kernel
  function, the kernel-matrix entry at \<open>(a, b)\<close> is entry 0 of the probability vector measured
  over the wires \<open>0, ..., num_qubits - 1\<close> on the circuit made of the embedding of \<open>a\<close>
  followed by the adjoint of the embedding of \<open>b\<close>; the matrix has one row per element of
  the first set and one column per element of the second.
\<close>

theorem kernel_matrix_entries:
  assumes "\<forall>a \<in> set A. \<forall>b \<in> set B.
             device (embedding a @ qml_adjoint embedding b, Probs [0..num_qubits - 1]) \<noteq> []"
  shows "qkernel device embedding qml_adjoint num_qubits A B
           = Inr (map (\<lambda>a. map (\<lambda>b. device (embedding a @ qml_adjoint embedding b,
                                           Probs [0..num_qubits - 1]) ! 0) B) A)
       \<and> (\<forall>i < length A. \<forall>j < length B.
            \<exists>K. qkernel device embedding qml_adjoint num_qubits A B = Inr K
              \<and> length K = length A \<and> length (K ! i) = length B
              \<and> K ! i ! j = device (embedding (A ! i) @ qml_adjoint embedding (B ! j),
                                     Probs [0..num_qubits - 1]) ! 0)"
proof -
  let ?entry = "\<lambda>a b. device (embedding a @ qml_adjoint embedding b, Probs [0..num_qubits - 1])"
  have kc: "kernel_circuit device embedding qml_adjoint num_qubits a b = ?entry a b" for a b
    by (simp add: kernel_circuit_def get_qnode_instance_def get_kernel_embedding_def py_range_def)
  have cell: "py_index (kernel_circuit device embedding qml_adjoint num_qubits a b) 0
                = Inr (?entry a b ! 0)" if "a \<in> set A" "b \<in> set B" for a b
  proof -
    from assms that have "?entry a b \<noteq> []" by blast
    then have "0 < int (length (?entry a b))" by simp
    then have "py_index (?entry a b) 0 = Inr (?entry a b ! nat 0)"
      by (intro py_index_in_range) simp_all
    then show ?thesis by (simp add: kc)
  qed
  have row: "list_comprehension
               (\<lambda>b. py_index (kernel_circuit device embedding qml_adjoint num_qubits a b) 0) B
             = Inr (map (\<lambda>b. ?entry a b ! 0) B)" if "a \<in> set A" for a
    by (rule list_comprehension_map) (rule cell [OF that])
  have m: "qkernel device embedding qml_adjoint num_qubits A B
           = Inr (map (\<lambda>a. map (\<lambda>b. ?entry a b ! 0) B) A)"
    unfolding qkernel_def by (rule list_comprehension_map) (rule row)
  show ?thesis unfolding m by simp
qed

theorem kernel_matrix_entries_witness:
  "qkernel (\<lambda>(ops, m). [real (length ops), 1]) (\<lambda>v. replicate v ()) (\<lambda>f v. rev (f v)) 2
      [1, 2] [3, 4, 5 :: nat]
     = Inr [[4, 5, 6], [5, 6, 7]]"
proof -
  have "\<forall>a \<in> set [1, 2 :: nat]. \<forall>b \<in> set [3, 4, 5 :: nat].
          (\<lambda>(ops, m). [real (length ops), 1])
            ((\<lambda>v. replicate v ()) a @ (\<lambda>f v. rev (f v)) (\<lambda>v. replicate v ()) b, Probs [0..2 - 1])
          \<noteq> []"
    by simp
  from kernel_matrix_entries [of "[1, 2 :: nat]" "[3, 4, 5 :: nat]"
         "\<lambda>(ops, m). [real (length ops), 1]" "\<lambda>v. replicate v ()" "\<lambda>f v. rev (f v)" 2, OF this]
  show ?thesis by simp
qed

lemma py_setitem_in_range:
  "0 \<le> i \<Longrightarrow> i < int (length xs) \<Longrightarrow> py_setitem xs i v = Inr (xs[nat i := v])"
  by (simp add: py_setitem_def)

lemma predict_loop_signs:
  assumes "\<And>tv. tv \<in> set tvs \<Longrightarrow> node tv ps = Inr (val tv)"
    and "i + length tvs \<le> length predictions"
  shows "predict_loop node ps predictions (int i) tvs
           = Inr (take i predictions @ map (\<lambda>tv. sgn (val tv)) tvs
                    @ drop (i + length tvs) predictions)"
  using assms
proof (induction tvs arbitrary: i predictions)
  case Nil
  then show ?case by simp
next
  case (Cons tv rest)
  have n: "node tv ps = Inr (val tv)" using Cons.prems(1) by simp
  have lt: "i < length predictions" using Cons.prems(2) by simp
  have s: "py_setitem predictions (int i) (sgn (val tv)) = Inr (predictions[i := sgn (val tv)])"
    using lt py_setitem_in_range [of "int i" predictions] by simp
  have "predict_loop node ps (predictions[i := sgn (val tv)]) (int (Suc i)) rest
          = Inr (take (Suc i) (predictions[i := sgn (val tv)]) @ map (\<lambda>tv. sgn (val tv)) rest
                   @ drop (Suc i + length rest) (predictions[i := sgn (val tv)]))"
    using Cons.prems by (intro Cons.IH) simp_all
  moreover have "take (Suc i) (predictions[i := sgn (val tv)]) = take i predictions @ [sgn (val tv)]"
    using lt by (simp add: take_Suc_conv_app_nth)
  moreover have "int (Suc i) = int i + 1" by simp
  ultimately show ?case
    by (simp add: n s del: of_nat_Suc)
qed

lemma predict_and_score_signs:
  assumes "\<And>tv. tv \<in> set testing_vectors \<Longrightarrow> node tv ps = Inr (val tv)"
    and "length testing_vectors = length testing_labels"
  shows "predict_and_score node get_score (empty_like uninit testing_labels) (Inr ps)
           testing_vectors testing_labels
         = Inr (get_score (map (\<lambda>tv. sgn (val tv)) testing_vectors) testing_labels,
                map (\<lambda>tv. sgn (val tv)) testing_vectors, ps)"
proof -
  have "0 + length testing_vectors \<le> length (empty_like uninit testing_labels)"
    using assms(2) by (simp add: empty_like_def)
  from predict_loop_signs [of testing_vectors node ps val 0 "empty_like uninit testing_labels",
         OF assms(1) this]
  have "predict_loop node ps (empty_like uninit testing_labels) 0 testing_vectors
          = Inr (map (\<lambda>tv. sgn (val tv)) testing_vectors)"
    using assms(2) by (simp add: empty_like_def)
  then show ?thesis by (simp add: predict_and_score_def)
qed

lemma split_same_length:
  "length xs = length ys \<Longrightarrow> length (testing_part xs p) = length (testing_part ys p)"
  by (simp add: testing_part_def py_slice_def Let_def)


text \<open>
  C7. In \<open>run\<close> and \<open>run_batched\<close>, once the optimizer has returned its parameters, the
  prediction for each test vector is the sign of the circuit's expectation value at those
  parameters, in the order of the test vectors. An expectation value of exactly 0 gives the
  prediction 0, which is neither \<open>-1\<close> nor \<open>+1\<close>.
\<close>

theorem predictions_are_signs:
  assumes "length feature_vectors = length labels"
    and "training_period training_ratio labels = Inr period"
    and "\<forall>tv \<in> set (testing_part feature_vectors period). node tv ps' = Inr (val tv)"
    and "preds = map (\<lambda>tv. sgn (val tv)) (testing_part feature_vectors period)"
  shows "(fst (call_optimizer (optimizer_function self_ps)
                 (\<lambda>ps u. (cost_function node error_function
                              (training_part feature_vectors period)
                              (training_part labels period) ps, u)) ()) = Inr ps'
          \<longrightarrow> run node get_score uninit self_ps feature_vectors labels optimizer_function
                 error_function training_ratio
               = Inr (get_score preds (testing_part labels period), preds, ps'))
       \<and> (\<forall>batch_lenght.
            get_batch_lenght (training_part labels period) num_batches = Inr batch_lenght
            \<and> fst (call_optimizer (optimizer_function self_ps)
                     (batched_cost_function node error_function
                        (training_part feature_vectors period)
                        (training_part labels period) batch_lenght) 0) = Inr ps'
          \<longrightarrow> run_batched node get_score uninit self_ps feature_vectors labels
                 optimizer_function error_function num_batches training_ratio
               = Inr (get_score preds (testing_part labels period), preds, ps'))
       \<and> length preds = length (testing_part feature_vectors period)
       \<and> (\<forall>i < length preds.
            preds ! i = sgn (val (testing_part feature_vectors period ! i))
            \<and> (val (testing_part feature_vectors period ! i) = 0
                 \<longrightarrow> preds ! i = 0 \<and> preds ! i \<noteq> 1 \<and> preds ! i \<noteq> - 1))"
proof -
  let ?tv = "testing_part feature_vectors period"
  let ?tl = "testing_part labels period"
  have len: "length ?tv = length ?tl" using assms(1) by (rule split_same_length)
  have nd: "tv \<in> set ?tv \<Longrightarrow> node tv ps' = Inr (val tv)" for tv using assms(3) by blast
  have ps: "predict_and_score node get_score (empty_like uninit ?tl) (Inr ps') ?tv ?tl
              = Inr (get_score preds ?tl, preds, ps')"
    unfolding assms(4)
    by (rule predict_and_score_signs [where testing_vectors = "?tv" and node = node
          and ps = ps' and val = val and testing_labels = "?tl", OF nd len])
  have g1: "run node get_score uninit self_ps feature_vectors labels optimizer_function
                 error_function training_ratio
               = Inr (get_score preds ?tl, preds, ps')"
    if "fst (call_optimizer (optimizer_function self_ps)
                 (\<lambda>ps u. (cost_function node error_function
                              (training_part feature_vectors period)
                              (training_part labels period) ps, u)) ()) = Inr ps'"
    using that ps by (simp add: run_def Let_def assms(2))
  have g2: "run_batched node get_score uninit self_ps feature_vectors labels
                 optimizer_function error_function num_batches training_ratio
               = Inr (get_score preds ?tl, preds, ps')"
    if "get_batch_lenght (training_part labels period) num_batches = Inr batch_lenght
        \<and> fst (call_optimizer (optimizer_function self_ps)
                     (batched_cost_function node error_function
                        (training_part feature_vectors period)
                        (training_part labels period) batch_lenght) 0) = Inr ps'"
    for batch_lenght
    using that ps by (simp add: run_batched_def Let_def assms(2))
  have g3: "length preds = length ?tv" unfolding assms(4) by simp
  have g4: "preds ! i = sgn (val (?tv ! i))
            \<and> (val (?tv ! i) = 0 \<longrightarrow> preds ! i = 0 \<and> preds ! i \<noteq> 1 \<and> preds ! i \<noteq> - 1)"
    if "i < length preds" for i
    using that unfolding assms(4) by simp
  from g1 g2 g3 g4 show ?thesis by blast
qed

theorem predictions_are_signs_witness:
  "training_period 0.5 [1, - 1, 1, 1 :: real] = Inr 2
   \<and> testing_part [5, - 2, 0, 3 :: real] 2 = [0, 3]
   \<and> run (\<lambda>v ps. Inr v) (\<lambda>p l. length p) (\<lambda>k. 9) [0.25] [5, - 2, 0, 3] [1, - 1, 1, 1]
        (\<lambda>ps. Return ps) (\<lambda>r l. Inr (sum_list r)) 0.5
       = Inr (2, [0, 1], [0.25])
   \<and> run_batched (\<lambda>v ps. Inr v) (\<lambda>p l. length p) (\<lambda>k. 9) [0.25] [5, - 2, 0, 3] [1, - 1, 1, 1]
        (\<lambda>ps. Return ps) (\<lambda>r l. Inr (sum_list r)) 1 0.5
       = Inr (2, [0, 1], [0.25])"
proof -
  have "round53 4 = 4" "round53 2 = 2"
    using round53_int_exact [of 4] round53_int_exact [of 2] by simp_all
  then have p: "training_period 0.5 [1, - 1, 1, 1 :: real] = Inr 2"
    by (simp add: training_period_def float_result_def py_int_def)
  have tp: "testing_part [5, - 2, 0, 3 :: real] 2 = [0, 3]"
           "testing_part [1, - 1, 1, 1 :: real] 2 = [1, 1]"
           "training_part [1, - 1, 1, 1 :: real] 2 = [1, - 1]"
    by (simp_all add: testing_part_def training_part_def py_slice_from py_slice_to)
  have a: "length [5, - 2, 0, 3 :: real] = length [1, - 1, 1, 1 :: real]" by simp
  note b = p
  have c: "\<forall>tv \<in> set (testing_part [5, - 2, 0, 3 :: real] 2).
             (\<lambda>v ps. Inr v) tv [0.25 :: real] = (Inr ((\<lambda>v. v) tv) :: py_error + real)"
    by simp
  have d: "[0, 1 :: real] = map (\<lambda>tv. sgn ((\<lambda>v. v) tv)) (testing_part [5, - 2, 0, 3 :: real] 2)"
    by (simp add: tp)
  have g: "get_batch_lenght [1, - 1 :: real] 1 = Inr 2"
    by (simp add: get_batch_lenght_pos)
  note t = predictions_are_signs [where feature_vectors = "[5, - 2, 0, 3 :: real]"
      and labels = "[1, - 1, 1, 1 :: real]" and period = 2 and training_ratio = "0.5"
      and node = "\<lambda>v ps. Inr v" and ps' = "[0.25]" and val = "\<lambda>v. v" and preds = "[0, 1]"
      and optimizer_function = "\<lambda>ps. Return ps" and self_ps = "[0.25]"
      and error_function = "\<lambda>r l. Inr (sum_list r)" and get_score = "\<lambda>p l. length p"
      and uninit = "\<lambda>k. 9" and num_batches = 1, OF a b c d]
  from t have r1: "run (\<lambda>v ps. Inr v) (\<lambda>p l. length p) (\<lambda>k. 9) [0.25] [5, - 2, 0, 3]
        [1, - 1, 1, 1] (\<lambda>ps. Return ps) (\<lambda>r l. Inr (sum_list r)) 0.5
       = Inr (2, [0, 1], [0.25])"
    by simp
  from t g have r2: "run_batched (\<lambda>v ps. Inr v) (\<lambda>p l. length p) (\<lambda>k. 9) [0.25]
        [5, - 2, 0, 3] [1, - 1, 1, 1] (\<lambda>ps. Return ps) (\<lambda>r l. Inr (sum_list r)) 1 0.5
       = Inr (2, [0, 1], [0.25])"
    by (simp add: tp)
  from p tp r1 r2 show ?thesis by simp
qed

end
